theory Spec2Isabelle
  imports Main
begin

section \<open>Go values, dynamic types and errors\<close>

text \<open>
  The package handles values of Go's interface type \<open>any\<close>: keys and stored values of a
  context, and the pair a combined lookup returns. A non-nil interface value carries a
  dynamic type and a payload; the nil interface value is \<open>None\<close>.

  \<open>Tuple2\<close> is \<open>generichelper.Tuple2[any, any]{Item1, Item2}\<close>, the pair
  \<open>OrContext.Value\<close> returns.
\<close>

text \<open>
  Modelled from the spec: the declaration of the struct \<open>TwoValues\<close> that
  \<open>AndContext.Value\<close> returns is not among the source files; the spec describes it as an
  ordered pair \<open>(First, Second)\<close> holding the two inputs' resolved values, a data carrier
  with no behaviour.
\<close>

datatype gval =
    GInt int
  | GString string
  | GBool bool
  | Tuple2 "gval option" "gval option"
  | TwoValues "gval option" "gval option"

type_synonym any = "gval option"

datatype gtype = Tint | Tstring | Tbool | TTuple2 | TTwoValues | Tany

fun dynamic_type :: "gval \<Rightarrow> gtype" where
  "dynamic_type (GInt _) = Tint"
| "dynamic_type (GString _) = Tstring"
| "dynamic_type (GBool _) = Tbool"
| "dynamic_type (Tuple2 _ _) = TTuple2"
| "dynamic_type (TwoValues _ _) = TTwoValues"

text \<open>The zero value of a type; for the interface type \<open>any\<close> it is nil.\<close>

fun zero_value :: "gtype \<Rightarrow> any" where
  "zero_value Tint = Some (GInt 0)"
| "zero_value Tstring = Some (GString [])"
| "zero_value Tbool = Some (GBool False)"
| "zero_value TTuple2 = Some (Tuple2 None None)"
| "zero_value TTwoValues = Some (TwoValues None None)"
| "zero_value Tany = None"

text \<open>
  \<open>x.(T)\<close> holds when \<open>x\<close> is not nil and its dynamic type is identical to \<open>T\<close>
  (\<open>T\<close> not an interface type) or implements \<open>T\<close> (every type implements \<open>any\<close>).
\<close>

definition has_type :: "any \<Rightarrow> gtype \<Rightarrow> bool" where
  "has_type x T =
     (case x of None \<Rightarrow> False
      | Some v \<Rightarrow> (if T = Tany then True else dynamic_type v = T))"

text \<open>
  The two-result form \<open>v, ok := x.(T)\<close>: no panic; when the assertion fails \<open>v\<close> is the
  zero value of \<open>T\<close>.
\<close>

definition type_assert :: "any \<Rightarrow> gtype \<Rightarrow> any \<times> bool" where
  "type_assert x T = (if has_type x T then (x, True) else (zero_value T, False))"

text \<open>
  Errors. \<open>Canceled\<close> and \<open>DeadlineExceeded\<close> are the two causes of package
  \<open>context\<close>; \<open>joinError\<close> is what \<open>errors.Join\<close> builds. The nil error is \<open>None\<close>.
\<close>

datatype gerror =
    Canceled
  | DeadlineExceeded
  | errorString string
  | joinError "gerror list"

text \<open>
  \<open>errors.Join(errs...)\<close>: nil errors are discarded, the others are kept in order;
  nil when every argument is nil.
\<close>

definition errors_Join :: "gerror option list \<Rightarrow> gerror option" where
  "errors_Join errs =
     (let es = List.map_filter (\<lambda>e. e) errs
      in if es = [] then None else Some (joinError es))"

section \<open>The context interface and the combined contexts\<close>

text \<open>
  \<open>time.Time\<close> is an instant on the time line; \<open>Before\<close> is \<open><\<close> and \<open>After\<close> is
  \<open>>\<close>. Channels are addresses into a store of channels.
\<close>

type_synonym Time = int
type_synonym chan = nat

text \<open>
  An input context, through the four methods of \<open>context.Context\<close>: what each of them
  answers now. \<open>ctx_Done = None\<close> is the nil channel. A context is never the nil
  interface value: the methods of the package call their contexts without a check, and
  handing over a nil context is a violation of the precondition.
\<close>

record Context =
  ctx_Deadline :: "Time \<times> bool"
  ctx_Done :: "chan option"
  ctx_Err :: "gerror option"
  ctx_Value :: "any \<Rightarrow> any"

text \<open>
  The context that \<open>context.WithValue(parent, key, val)\<close> returns, a \<open>valueCtx\<close>: it
  answers \<open>val\<close> for \<open>key\<close> and asks the parent for every other key and for everything
  else. (The call itself refuses a nil key.)
\<close>

definition valueCtx :: "Context \<Rightarrow> any \<Rightarrow> any \<Rightarrow> Context" where
  "valueCtx parent key val =
     parent\<lparr>ctx_Value := (\<lambda>k. if k = key then val else ctx_Value parent k)\<rparr>"

text \<open>
  \<open>Value[T](ctx, key)\<close> of contexthelper.go.
\<close>

definition Value :: "gtype \<Rightarrow> Context \<Rightarrow> any \<Rightarrow> any \<times> bool" where
  "Value T ctx key = (let (v, ok) = type_assert (ctx_Value ctx key) T in (v, ok))"

text \<open>
  The structs \<open>OrContext\<close> and \<open>AndContext\<close> declare the same fields. A \<open>sync.Once\<close> is
  its done flag; the field \<open>done\<close> is \<open>done_chan\<close> here. \<open>Ctx1\<close> and \<open>Ctx2\<close> refer to
  contexts that others own: the record holds what each of them answers at present.
\<close>

record Combined =
  Ctx1 :: Context
  Ctx2 :: Context
  onceDeadline :: bool
  deadline :: Time
  okDeadline :: bool
  onceDone :: bool
  done_chan :: "chan option"
  onceErr :: bool
  err :: "gerror option"

type_synonym OrContext = Combined
type_synonym AndContext = Combined

definition NewOrContext :: "Context \<Rightarrow> Context \<Rightarrow> OrContext" where
  "NewOrContext ctx1 ctx2 =
     \<lparr>Ctx1 = ctx1, Ctx2 = ctx2, onceDeadline = False, deadline = 0, okDeadline = False,
      onceDone = False, done_chan = None, onceErr = False, err = None\<rparr>"

definition NewAndContext :: "Context \<Rightarrow> Context \<Rightarrow> AndContext" where
  "NewAndContext ctx1 ctx2 =
     \<lparr>Ctx1 = ctx1, Ctx2 = ctx2, onceDeadline = False, deadline = 0, okDeadline = False,
      onceDone = False, done_chan = None, onceErr = False, err = None\<rparr>"

subsection \<open>Value\<close>

text \<open>\<open>OrContext.Value\<close> (the copy that returns \<open>generichelper.Tuple2\<close>).\<close>

definition OrContext_Value :: "OrContext \<Rightarrow> any \<Rightarrow> any" where
  "OrContext_Value c key =
     (let v1 = ctx_Value (Ctx1 c) key;
          v2 = ctx_Value (Ctx2 c) key
      in if v1 = None \<and> v2 = None then None else Some (Tuple2 v1 v2))"

text \<open>\<open>AndContext.Value\<close> of contexthelper.go.\<close>

definition AndContext_Value :: "AndContext \<Rightarrow> any \<Rightarrow> any" where
  "AndContext_Value c key =
     (let v1 = ctx_Value (Ctx1 c) key;
          v2 = ctx_Value (Ctx2 c) key
      in if v1 = None \<or> v2 = None then None else Some (TwoValues v1 v2))"

text \<open>
  The earlier copies of the two types (orcontext.go and the second copy of
  \<open>AndContext\<close>) have a \<open>Value\<close> method whose body is \<open>return nil\<close>.
\<close>

definition OrContext_Value_draft :: "OrContext \<Rightarrow> any \<Rightarrow> any" where
  "OrContext_Value_draft c key = None"

definition AndContext_Value_draft :: "AndContext \<Rightarrow> any \<Rightarrow> any" where
  "AndContext_Value_draft c key = None"

subsection \<open>The runtime: channels, goroutines\<close>

text \<open>
  The store of channels holds, for every channel made so far, whether it has been
  closed. Nothing is ever sent on a done channel, so a receive \<open>_, ok := <-ch\<close> blocks
  (\<open>None\<close>) on a nil channel and on an open one, and yields \<open>ok = false\<close> on a closed
  one.
\<close>

type_synonym chans = "bool list"

definition closed :: "chans \<Rightarrow> chan \<Rightarrow> bool" where
  "closed h ch = (ch < length h \<and> h ! ch)"

fun recv :: "chans \<Rightarrow> chan option \<Rightarrow> bool option" where
  "recv h None = None"
| "recv h (Some ch) = (if closed h ch then Some False else None)"

text \<open>
  \<open>close(ch)\<close> panics (\<open>None\<close>) on a channel that is already closed; an address outside
  the store is no channel.
\<close>

definition close_chan :: "chans \<Rightarrow> chan \<Rightarrow> chans option" where
  "close_chan h ch = (if ch < length h \<and> \<not> h ! ch then Some (h[ch := True]) else None)"

text \<open>
  A watcher goroutine, by where it stands: \<open>orDone\<close> at its select, \<open>andDone\<close> at the
  head of its loop (each with its parameters \<open>done1\<close>, \<open>done2\<close>, \<open>done\<close>), either of
  them before \<open>close(done)\<close>, or returned.
\<close>

datatype goroutine =
    OrDone "chan option" "chan option" chan
  | AndDone "chan option" "chan option" chan
  | CloseDone chan
  | Returned

text \<open>
  One step of a watcher. Where a select has two cases, \<open>second\<close> tells which one is
  taken; a case can be taken only if its receive does not block. \<open>None\<close>: the goroutine
  cannot take this step.
\<close>

fun goroutine_step :: "bool \<Rightarrow> chans \<Rightarrow> goroutine \<Rightarrow> (goroutine \<times> chans) option" where
  "goroutine_step second h (OrDone done1 done2 d) =
     (case recv h (if second then done2 else done1) of
        None \<Rightarrow> None
      | Some _ \<Rightarrow> Some (CloseDone d, h))"
| "goroutine_step second h (AndDone done1 done2 d) =
     (if done1 \<noteq> None \<or> done2 \<noteq> None then
        (if \<not> second then
           (case recv h done1 of
              None \<Rightarrow> None
            | Some ok1 \<Rightarrow> Some (AndDone (if \<not> ok1 then None else done1) done2 d, h))
         else
           (case recv h done2 of
              None \<Rightarrow> None
            | Some ok2 \<Rightarrow> Some (AndDone done1 (if \<not> ok2 then None else done2) d, h)))
      else Some (CloseDone d, h))"
| "goroutine_step second h (CloseDone d) =
     (case close_chan h d of None \<Rightarrow> None | Some h' \<Rightarrow> Some (Returned, h'))"
| "goroutine_step second h Returned = None"

subsection \<open>Calls of \<open>Err\<close> under way, and the runtime\<close>

text \<open>
  A call of \<open>Err\<close> is not one event. It first calls \<open>c.Done()\<close>, which on the first call
  starts the watcher; the select then polls the channel it got, and by then the watcher
  may already have closed it; \<open>onceErr.Do\<close> comes after that, and its body asks
  \<open>Ctx1\<close> and then \<open>Ctx2\<close> for their errors, with whatever happens to the inputs in
  between. So a call is modelled by where it stands:
  \<^item> \<open>ErrEntry\<close>: called, before \<open>c.Done()\<close>;
  \<^item> \<open>ErrSelect d\<close>: \<open>c.Done()\<close> has returned \<open>d\<close>, before the select polls it;
  \<^item> \<open>ErrOnce\<close>: the receive was ready, before \<open>c.onceErr.Do\<close>;
  \<^item> \<open>ErrBody e1\<close>: inside the body given to \<open>onceErr.Do\<close>, holding the mutex of the
    \<open>Once\<close>, after \<open>c.Ctx1.Err()\<close> has answered \<open>e1\<close>;
  \<^item> \<open>ErrReturn\<close>: \<open>onceErr.Do\<close> has returned, before \<open>return c.err\<close>;
  \<^item> \<open>ErrDefault\<close>: the call took the default case and has returned nil;
  \<^item> \<open>ErrReturned r\<close>: the call has returned \<open>c.err\<close>, which was \<open>r\<close>.
\<close>

datatype err_call =
    ErrEntry
  | ErrSelect "chan option"
  | ErrOnce
  | ErrBody "gerror option"
  | ErrReturn
  | ErrDefault
  | ErrReturned "gerror option"

fun is_ErrBody :: "err_call \<Rightarrow> bool" where
  "is_ErrBody (ErrBody _) = True"
| "is_ErrBody _ = False"

text \<open>
  The runtime beside the struct: the channels, the goroutines started so far, the calls
  of \<open>Err\<close> made so far, and a record of the bodies handed to \<open>Once.Do\<close> that have run.
\<close>

datatype quantity = QDeadline | QDone | QErr

record runtime =
  chans :: chans
  goroutines :: "goroutine list"
  err_calls :: "err_call list"
  computed :: "quantity list"

type_synonym state = "Combined \<times> runtime"

subsection \<open>Deadline\<close>

definition OrContext_Deadline :: "state \<Rightarrow> (Time \<times> bool) \<times> state" where
  "OrContext_Deadline s =
     (let (c, rt) = s in
      if onceDeadline c then ((deadline c, okDeadline c), (c, rt))
      else
        let (dl1, ok1) = ctx_Deadline (Ctx1 c);
            (dl2, ok2) = ctx_Deadline (Ctx2 c);
            c' = (if \<not> ok1 then c\<lparr>deadline := dl2, okDeadline := ok2\<rparr>
                  else if \<not> ok2 then c\<lparr>deadline := dl1, okDeadline := ok1\<rparr>
                  else if dl1 < dl2 then c\<lparr>deadline := dl1, okDeadline := True\<rparr>
                  else c\<lparr>deadline := dl2, okDeadline := True\<rparr>)\<lparr>onceDeadline := True\<rparr>
        in ((deadline c', okDeadline c'), (c', rt\<lparr>computed := computed rt @ [QDeadline]\<rparr>)))"

definition AndContext_Deadline :: "state \<Rightarrow> (Time \<times> bool) \<times> state" where
  "AndContext_Deadline s =
     (let (c, rt) = s in
      if onceDeadline c then ((deadline c, okDeadline c), (c, rt))
      else
        let (dl1, ok1) = ctx_Deadline (Ctx1 c);
            (dl2, ok2) = ctx_Deadline (Ctx2 c);
            c' = (if \<not> ok1 then c\<lparr>deadline := dl2, okDeadline := ok2\<rparr>
                  else if \<not> ok2 then c\<lparr>deadline := dl1, okDeadline := ok1\<rparr>
                  else if dl1 > dl2 then c\<lparr>deadline := dl1, okDeadline := True\<rparr>
                  else c\<lparr>deadline := dl2, okDeadline := True\<rparr>)\<lparr>onceDeadline := True\<rparr>
        in ((deadline c', okDeadline c'), (c', rt\<lparr>computed := computed rt @ [QDeadline]\<rparr>)))"

subsection \<open>Done\<close>

text \<open>
  \<open>make(chan struct{})\<close> yields the next address of the store, open; \<open>go f(...)\<close>
  adds a goroutine standing at the entry of \<open>f\<close>.
\<close>

definition OrContext_Done :: "state \<Rightarrow> chan option \<times> state" where
  "OrContext_Done s =
     (let (c, rt) = s in
      if onceDone c then (done_chan c, (c, rt))
      else
        let rt0 = rt\<lparr>computed := computed rt @ [QDone]\<rparr> in
        if ctx_Done (Ctx1 c) = None \<and> ctx_Done (Ctx2 c) = None
        then (done_chan c, (c\<lparr>onceDone := True\<rparr>, rt0))
        else
          let ch = length (chans rt0);
              rt1 = rt0\<lparr>chans := chans rt0 @ [False]\<rparr>;
              c' = c\<lparr>done_chan := Some ch\<rparr>;
              rt2 = rt1\<lparr>goroutines := goroutines rt1 @
                       [OrDone (ctx_Done (Ctx1 c')) (ctx_Done (Ctx2 c')) ch]\<rparr>
          in (Some ch, (c'\<lparr>onceDone := True\<rparr>, rt2)))"

definition AndContext_Done :: "state \<Rightarrow> chan option \<times> state" where
  "AndContext_Done s =
     (let (c, rt) = s in
      if onceDone c then (done_chan c, (c, rt))
      else
        let rt0 = rt\<lparr>computed := computed rt @ [QDone]\<rparr> in
        if ctx_Done (Ctx1 c) = None \<and> ctx_Done (Ctx2 c) = None
        then (done_chan c, (c\<lparr>onceDone := True\<rparr>, rt0))
        else
          let ch = length (chans rt0);
              rt1 = rt0\<lparr>chans := chans rt0 @ [False]\<rparr>;
              c' = c\<lparr>done_chan := Some ch\<rparr>;
              rt2 = rt1\<lparr>goroutines := goroutines rt1 @
                       [AndDone (ctx_Done (Ctx1 c')) (ctx_Done (Ctx2 c')) ch]\<rparr>
          in (Some ch, (c'\<lparr>onceDone := True\<rparr>, rt2)))"

subsection \<open>Err, step by step\<close>

text \<open>
  One step of a call of \<open>Err\<close> that stands at \<open>k\<close>:
  \<^item> at \<open>ErrEntry\<close> it calls \<open>c.Done()\<close>;
  \<^item> at \<open>ErrSelect d\<close> the select takes the first case when the receive from \<open>d\<close> does
    not block, and the default case, which returns nil, otherwise;
  \<^item> at \<open>ErrOnce\<close>, \<open>onceErr.Do\<close> returns at once when the \<open>Once\<close> is done; it waits
    (\<open>None\<close>) while another call is inside the body; otherwise it enters the body, and
    \<open>c.Ctx1.Err()\<close> is evaluated;
  \<^item> at \<open>ErrBody e1\<close>, \<open>c.Ctx2.Err()\<close> is evaluated, \<open>errors.Join\<close> of the two is stored
    in \<open>c.err\<close>, and the \<open>Once\<close> is done;
  \<^item> at \<open>ErrReturn\<close> the call returns \<open>c.err\<close>.
  A call that has returned takes no step.
\<close>

fun OrContext_Err :: "err_call \<Rightarrow> state \<Rightarrow> (err_call \<times> state) option" where
  "OrContext_Err ErrEntry (c, rt) =
     (let (d, s') = OrContext_Done (c, rt) in Some (ErrSelect d, s'))"
| "OrContext_Err (ErrSelect d) (c, rt) =
     (case recv (chans rt) d of
        Some _ \<Rightarrow> Some (ErrOnce, (c, rt))
      | None \<Rightarrow> Some (ErrDefault, (c, rt)))"
| "OrContext_Err ErrOnce (c, rt) =
     (if onceErr c then Some (ErrReturn, (c, rt))
      else if list_ex is_ErrBody (err_calls rt) then None
      else Some (ErrBody (ctx_Err (Ctx1 c)), (c, rt)))"
| "OrContext_Err (ErrBody e1) (c, rt) =
     Some (ErrReturn,
           (c\<lparr>err := errors_Join [e1, ctx_Err (Ctx2 c)], onceErr := True\<rparr>,
            rt\<lparr>computed := computed rt @ [QErr]\<rparr>))"
| "OrContext_Err ErrReturn (c, rt) = Some (ErrReturned (err c), (c, rt))"
| "OrContext_Err ErrDefault (c, rt) = None"
| "OrContext_Err (ErrReturned r) (c, rt) = None"

fun AndContext_Err :: "err_call \<Rightarrow> state \<Rightarrow> (err_call \<times> state) option" where
  "AndContext_Err ErrEntry (c, rt) =
     (let (d, s') = AndContext_Done (c, rt) in Some (ErrSelect d, s'))"
| "AndContext_Err (ErrSelect d) (c, rt) =
     (case recv (chans rt) d of
        Some _ \<Rightarrow> Some (ErrOnce, (c, rt))
      | None \<Rightarrow> Some (ErrDefault, (c, rt)))"
| "AndContext_Err ErrOnce (c, rt) =
     (if onceErr c then Some (ErrReturn, (c, rt))
      else if list_ex is_ErrBody (err_calls rt) then None
      else Some (ErrBody (ctx_Err (Ctx1 c)), (c, rt)))"
| "AndContext_Err (ErrBody e1) (c, rt) =
     Some (ErrReturn,
           (c\<lparr>err := errors_Join [e1, ctx_Err (Ctx2 c)], onceErr := True\<rparr>,
            rt\<lparr>computed := computed rt @ [QErr]\<rparr>))"
| "AndContext_Err ErrReturn (c, rt) = Some (ErrReturned (err c), (c, rt))"
| "AndContext_Err ErrDefault (c, rt) = None"
| "AndContext_Err (ErrReturned r) (c, rt) = None"

subsection \<open>The combined context among its observers, its inputs and its watcher\<close>

text \<open>
  Which of the two types a combined context has decides which methods run.
\<close>

datatype policy = OrPolicy | AndPolicy

definition New :: "policy \<Rightarrow> Context \<Rightarrow> Context \<Rightarrow> Combined" where
  "New p ctx1 ctx2 = (case p of OrPolicy \<Rightarrow> NewOrContext ctx1 ctx2 | AndPolicy \<Rightarrow> NewAndContext ctx1 ctx2)"

definition Deadline :: "policy \<Rightarrow> state \<Rightarrow> (Time \<times> bool) \<times> state" where
  "Deadline p s = (case p of OrPolicy \<Rightarrow> OrContext_Deadline s | AndPolicy \<Rightarrow> AndContext_Deadline s)"

definition Done :: "policy \<Rightarrow> state \<Rightarrow> chan option \<times> state" where
  "Done p s = (case p of OrPolicy \<Rightarrow> OrContext_Done s | AndPolicy \<Rightarrow> AndContext_Done s)"

definition Err :: "policy \<Rightarrow> err_call \<Rightarrow> state \<Rightarrow> (err_call \<times> state) option" where
  "Err p k s = (case p of OrPolicy \<Rightarrow> OrContext_Err k s | AndPolicy \<Rightarrow> AndContext_Err k s)"

text \<open>
  What can happen to a combined context, one event at a time, in any order:
  \<^item> \<open>Cancel ch\<close>: the owner of an input closes its done channel \<open>ch\<close>. The channel of
    the combined context itself is handed out receive-only and is closed by its watcher
    alone;
  \<^item> \<open>SetErr1 e\<close>, \<open>SetErr2 e\<close>: from now on \<open>Ctx1.Err()\<close> (\<open>Ctx2.Err()\<close>) answers \<open>e\<close>;
  \<^item> \<open>CallDeadline\<close>, \<open>CallDone\<close>: some observer calls the method. Such a call is one
    event: all it does happens inside \<open>Once.Do\<close>, which lets one caller run the body and
    makes every other caller wait until it has finished, and what it returns afterwards
    is never written again;
  \<^item> \<open>CallErr\<close>: some observer calls \<open>Err\<close>; the call stands at its entry;
  \<^item> \<open>ErrStep i\<close>: call number \<open>i\<close> of \<open>Err\<close> takes a step;
  \<^item> \<open>Watcher i second\<close>: goroutine number \<open>i\<close> takes a step.
  \<open>None\<close>: the event cannot happen in this state.
\<close>

datatype event =
    Cancel chan
  | SetErr1 "gerror option"
  | SetErr2 "gerror option"
  | CallDeadline
  | CallDone
  | CallErr
  | ErrStep nat
  | Watcher nat bool

fun step :: "policy \<Rightarrow> event \<Rightarrow> state \<Rightarrow> state option" where
  "step p (Cancel ch) (c, rt) =
     (if done_chan c = Some ch then None
      else case close_chan (chans rt) ch of
             None \<Rightarrow> None
           | Some h \<Rightarrow> Some (c, rt\<lparr>chans := h\<rparr>))"
| "step p (SetErr1 e) (c, rt) = Some (c\<lparr>Ctx1 := (Ctx1 c)\<lparr>ctx_Err := e\<rparr>\<rparr>, rt)"
| "step p (SetErr2 e) (c, rt) = Some (c\<lparr>Ctx2 := (Ctx2 c)\<lparr>ctx_Err := e\<rparr>\<rparr>, rt)"
| "step p CallDeadline (c, rt) = Some (snd (Deadline p (c, rt)))"
| "step p CallDone (c, rt) = Some (snd (Done p (c, rt)))"
| "step p CallErr (c, rt) = Some (c, rt\<lparr>err_calls := err_calls rt @ [ErrEntry]\<rparr>)"
| "step p (ErrStep i) (c, rt) =
     (if i < length (err_calls rt) then
        (case Err p (err_calls rt ! i) (c, rt) of
           None \<Rightarrow> None
         | Some (k, (c', rt')) \<Rightarrow> Some (c', rt'\<lparr>err_calls := (err_calls rt')[i := k]\<rparr>))
      else None)"
| "step p (Watcher i second) (c, rt) =
     (if i < length (goroutines rt) then
        (case goroutine_step second (chans rt) (goroutines rt ! i) of
           None \<Rightarrow> None
         | Some (g, h) \<Rightarrow> Some (c, rt\<lparr>chans := h, goroutines := (goroutines rt)[i := g]\<rparr>))
      else None)"

fun run :: "policy \<Rightarrow> event list \<Rightarrow> state \<Rightarrow> state option" where
  "run p [] s = Some s"
| "run p (e # es) s = (case step p e s of None \<Rightarrow> None | Some s' \<Rightarrow> run p es s')"

text \<open>
  A combined context right after \<open>NewOrContext\<close> or \<open>NewAndContext\<close>, with the channels
  \<open>h\<close> that exist at that moment, no goroutine of its own and no call under way.
\<close>

definition start :: "policy \<Rightarrow> Context \<Rightarrow> Context \<Rightarrow> chans \<Rightarrow> state" where
  "start p ctx1 ctx2 h =
     (New p ctx1 ctx2, \<lparr>chans = h, goroutines = [], err_calls = [], computed = []\<rparr>)"

text \<open>
  A call of \<open>Err\<close> made in state \<open>s\<close> during which nothing else happens: the call is
  made and takes its steps one after the other until it can take no more (five are
  enough). \<open>Err_alone\<close> is what it returns: \<open>Some r\<close> when it returns \<open>r\<close>, \<open>None\<close> when
  it has not returned, waiting for another call to leave the body of \<open>onceErr.Do\<close>.
  \<open>after_Err_alone\<close> is the state it leaves.
\<close>

fun drive :: "policy \<Rightarrow> nat \<Rightarrow> nat \<Rightarrow> state \<Rightarrow> state" where
  "drive p 0 i s = s"
| "drive p (Suc n) i s = (case step p (ErrStep i) s of None \<Rightarrow> s | Some s' \<Rightarrow> drive p n i s')"

fun err_result :: "err_call \<Rightarrow> gerror option option" where
  "err_result ErrDefault = Some None"
| "err_result (ErrReturned r) = Some r"
| "err_result _ = None"

definition after_Err_alone :: "policy \<Rightarrow> state \<Rightarrow> state" where
  "after_Err_alone p s =
     (case step p CallErr s of
        None \<Rightarrow> s
      | Some s0 \<Rightarrow> drive p 5 (length (err_calls (snd s))) s0)"

definition Err_alone :: "policy \<Rightarrow> state \<Rightarrow> gerror option option" where
  "Err_alone p s =
     err_result (err_calls (snd (after_Err_alone p s)) ! length (err_calls (snd s)))"


subsection \<open>Contexts of package context, as the tests build them\<close>

text \<open>
  \<open>context.Background()\<close> has no deadline, a nil done channel, a nil error and no
  values. \<open>cancelCtx ch\<close> is a context as \<open>context.WithCancel\<close> makes it on top of the
  background, with the done channel \<open>ch\<close>; \<open>timerCtx d ch\<close> is one as
  \<open>context.WithTimeout\<close> makes it, with the deadline \<open>d\<close> as well.
\<close>

definition Background :: Context where
  "Background = \<lparr>ctx_Deadline = (0, False), ctx_Done = None, ctx_Err = None, ctx_Value = (\<lambda>k. None)\<rparr>"

definition cancelCtx :: "chan \<Rightarrow> Context" where
  "cancelCtx ch = Background\<lparr>ctx_Done := Some ch\<rparr>"

definition timerCtx :: "Time \<Rightarrow> chan \<Rightarrow> Context" where
  "timerCtx d ch = Background\<lparr>ctx_Deadline := (d, True), ctx_Done := Some ch\<rparr>"

subsection \<open>Notions the properties are stated with\<close>

text \<open>A done channel has fired when it is not nil and has been closed.\<close>

definition fired :: "chans \<Rightarrow> chan option \<Rightarrow> bool" where
  "fired h d = (case d of None \<Rightarrow> False | Some ch \<Rightarrow> closed h ch)"

definition derived_fired :: "state \<Rightarrow> bool" where
  "derived_fired s = fired (chans (snd s)) (done_chan (fst s))"

text \<open>
  The condition on the inputs: under OR one of them has fired; under AND one of them
  has a done channel and each one that has a done channel has fired.
\<close>

definition input_condition :: "policy \<Rightarrow> state \<Rightarrow> bool" where
  "input_condition p s =
     (case p of
        OrPolicy \<Rightarrow>
          fired (chans (snd s)) (ctx_Done (Ctx1 (fst s))) \<or>
          fired (chans (snd s)) (ctx_Done (Ctx2 (fst s)))
      | AndPolicy \<Rightarrow>
          (ctx_Done (Ctx1 (fst s)) \<noteq> None \<or> ctx_Done (Ctx2 (fst s)) \<noteq> None) \<and>
          (ctx_Done (Ctx1 (fst s)) = None \<or> fired (chans (snd s)) (ctx_Done (Ctx1 (fst s)))) \<and>
          (ctx_Done (Ctx2 (fst s)) = None \<or> fired (chans (snd s)) (ctx_Done (Ctx2 (fst s)))))"

text \<open>A channel value is allocated: nil, or an address of the store.\<close>

definition chan_ok :: "chans \<Rightarrow> chan option \<Rightarrow> bool" where
  "chan_ok h d = (case d of None \<Rightarrow> True | Some ch \<Rightarrow> ch < length h)"

text \<open>The events that are steps of the watcher.\<close>

fun is_Watcher :: "event \<Rightarrow> bool" where
  "is_Watcher (Watcher _ _) = True"
| "is_Watcher _ = False"

subsection \<open>Invariants\<close>

text \<open>The goroutine that \<open>Done\<close> starts.\<close>

definition spawned :: "policy \<Rightarrow> Combined \<Rightarrow> chan \<Rightarrow> goroutine" where
  "spawned p c ch = (case p of
      OrPolicy \<Rightarrow> OrDone (ctx_Done (Ctx1 c)) (ctx_Done (Ctx2 c)) ch
    | AndPolicy \<Rightarrow> AndDone (ctx_Done (Ctx1 c)) (ctx_Done (Ctx2 c)) ch)"

text \<open>
  What holds of the watcher \<open>g\<close> of a combined context whose channel is \<open>ch\<close>: its
  \<open>done\<close> is \<open>ch\<close>; while it waits, \<open>ch\<close> is open and each of its \<open>done1\<close>, \<open>done2\<close> is
  the input's channel, or nil once that channel was seen closed; it is past its waiting
  only if the condition on the inputs holds.
\<close>

definition watcher_ok :: "policy \<Rightarrow> state \<Rightarrow> chan \<Rightarrow> goroutine \<Rightarrow> bool" where
  "watcher_ok p s ch g =
     (case g of
        OrDone done1 done2 d \<Rightarrow>
          p = OrPolicy \<and> d = ch \<and> \<not> closed (chans (snd s)) ch \<and>
          done1 = ctx_Done (Ctx1 (fst s)) \<and> done2 = ctx_Done (Ctx2 (fst s))
      | AndDone done1 done2 d \<Rightarrow>
          p = AndPolicy \<and> d = ch \<and> \<not> closed (chans (snd s)) ch \<and>
          (ctx_Done (Ctx1 (fst s)) \<noteq> None \<or> ctx_Done (Ctx2 (fst s)) \<noteq> None) \<and>
          (done1 = ctx_Done (Ctx1 (fst s)) \<or>
           done1 = None \<and> fired (chans (snd s)) (ctx_Done (Ctx1 (fst s)))) \<and>
          (done2 = ctx_Done (Ctx2 (fst s)) \<or>
           done2 = None \<and> fired (chans (snd s)) (ctx_Done (Ctx2 (fst s))))
      | CloseDone d \<Rightarrow> d = ch \<and> \<not> closed (chans (snd s)) ch \<and> input_condition p s
      | Returned \<Rightarrow> closed (chans (snd s)) ch \<and> input_condition p s)"

text \<open>
  The invariant of a combined context: the inputs' channels and its own are allocated,
  its own channel is none of the inputs' and exists only if an input has one; before
  the first \<open>Done\<close> there is no channel and no watcher; afterwards there is no channel
  and no watcher when both inputs have none, and otherwise one channel and exactly one
  watcher, for which \<open>watcher_ok\<close> holds.
\<close>

definition combined_inv :: "policy \<Rightarrow> state \<Rightarrow> bool" where
  "combined_inv p s =
     (chan_ok (chans (snd s)) (ctx_Done (Ctx1 (fst s))) \<and>
      chan_ok (chans (snd s)) (ctx_Done (Ctx2 (fst s))) \<and>
      (case done_chan (fst s) of
         None \<Rightarrow>
           goroutines (snd s) = [] \<and>
           (onceDone (fst s) \<longrightarrow>
              ctx_Done (Ctx1 (fst s)) = None \<and> ctx_Done (Ctx2 (fst s)) = None)
       | Some ch \<Rightarrow>
           onceDone (fst s) \<and> ch < length (chans (snd s)) \<and>
           (ctx_Done (Ctx1 (fst s)) \<noteq> None \<or> ctx_Done (Ctx2 (fst s)) \<noteq> None) \<and>
           ctx_Done (Ctx1 (fst s)) \<noteq> Some ch \<and> ctx_Done (Ctx2 (fst s)) \<noteq> Some ch \<and>
           (case goroutines (snd s) of [g] \<Rightarrow> watcher_ok p s ch g | _ \<Rightarrow> False)))"

text \<open>
  The record of computations agrees with the once flags: every body has run at most
  once, and one that has run has set its flag.
\<close>

definition inv_computed :: "state \<Rightarrow> bool" where
  "inv_computed s =
     (distinct (computed (snd s)) \<and>
      (QDeadline \<in> set (computed (snd s)) \<longrightarrow> onceDeadline (fst s)) \<and>
      (QDone \<in> set (computed (snd s)) \<longrightarrow> onceDone (fst s)) \<and>
      (QErr \<in> set (computed (snd s)) \<longrightarrow> onceErr (fst s)))"

text \<open>
  The inputs of the state are \<open>ctx1\<close> and \<open>ctx2\<close>, up to what their \<open>Err\<close> answers.
\<close>

definition same_inputs :: "Context \<Rightarrow> Context \<Rightarrow> state \<Rightarrow> bool" where
  "same_inputs ctx1 ctx2 s =
     (ctx_Deadline (Ctx1 (fst s)) = ctx_Deadline ctx1 \<and> ctx_Done (Ctx1 (fst s)) = ctx_Done ctx1 \<and>
      ctx_Value (Ctx1 (fst s)) = ctx_Value ctx1 \<and>
      ctx_Deadline (Ctx2 (fst s)) = ctx_Deadline ctx2 \<and> ctx_Done (Ctx2 (fst s)) = ctx_Done ctx2 \<and>
      ctx_Value (Ctx2 (fst s)) = ctx_Value ctx2)"

text \<open>
  The error field is written only after the derived done channel has been closed.
\<close>

definition inv_err :: "state \<Rightarrow> bool" where
  "inv_err s = ((onceErr (fst s) \<longrightarrow> derived_fired s) \<and> (\<not> onceErr (fst s) \<longrightarrow> err (fst s) = None))"

text \<open>
  What holds of a call of \<open>Err\<close> that stands at \<open>k\<close>: the channel it polls is the
  channel of the combined context; it is past the select only if the derived done
  channel has been closed; it is inside the body of \<open>onceErr.Do\<close> only while the \<open>Once\<close>
  is not done, and past it only when the \<open>Once\<close> is done; what it has returned from
  there is the error field.
\<close>

definition call_ok :: "state \<Rightarrow> err_call \<Rightarrow> bool" where
  "call_ok s k =
     (case k of
        ErrEntry \<Rightarrow> True
      | ErrSelect d \<Rightarrow> d = done_chan (fst s) \<and> onceDone (fst s)
      | ErrOnce \<Rightarrow> derived_fired s
      | ErrBody e1 \<Rightarrow> derived_fired s \<and> \<not> onceErr (fst s)
      | ErrReturn \<Rightarrow> derived_fired s \<and> onceErr (fst s)
      | ErrDefault \<Rightarrow> True
      | ErrReturned r \<Rightarrow> derived_fired s \<and> onceErr (fst s) \<and> r = err (fst s))"

text \<open>
  \<open>call_ok\<close> holds of every call, and at most one call is inside the body of
  \<open>onceErr.Do\<close>.
\<close>

definition inv_calls :: "state \<Rightarrow> bool" where
  "inv_calls s =
     ((\<forall>j < length (err_calls (snd s)). call_ok s (err_calls (snd s) ! j)) \<and>
      (\<forall>i j. i < length (err_calls (snd s)) \<and> j < length (err_calls (snd s)) \<and>
         is_ErrBody (err_calls (snd s) ! i) \<and> is_ErrBody (err_calls (snd s) ! j) \<longrightarrow> i = j))"

text \<open>The invariants together.\<close>

definition reach_inv :: "policy \<Rightarrow> Context \<Rightarrow> Context \<Rightarrow> state \<Rightarrow> bool" where
  "reach_inv p ctx1 ctx2 s =
     (combined_inv p s \<and> inv_err s \<and> inv_calls s \<and> same_inputs ctx1 ctx2 s)"

text \<open>
  The memoized deadline is the one a fresh combined context of the same inputs computes.
\<close>

definition inv_deadline :: "policy \<Rightarrow> Context \<Rightarrow> Context \<Rightarrow> state \<Rightarrow> bool" where
  "inv_deadline p ctx1 ctx2 s =
     (same_inputs ctx1 ctx2 s \<and>
      (onceDeadline (fst s) \<longrightarrow>
         (deadline (fst s), okDeadline (fst s)) = fst (Deadline p (start p ctx1 ctx2 []))))"

section \<open>Lemmas\<close>

lemma run_invariant:
  assumes stepP: "\<And>e s s'. P s \<Longrightarrow> step p e s = Some s' \<Longrightarrow> P s'"
  shows "P s \<Longrightarrow> run p es s = Some s' \<Longrightarrow> P s'"
proof (induction es arbitrary: s)
  case Nil
  then show ?case by simp
next
  case (Cons e es)
  from Cons.prems(2) obtain t where t: "step p e s = Some t" and r: "run p es t = Some s'"
    by (auto split: option.splits)
  from stepP [OF Cons.prems(1) t] have "P t" .
  from Cons.IH [OF this r] show ?case .
qed

lemma closed_close: "ch < length h \<Longrightarrow> closed (h[ch := True]) x = (x = ch \<or> closed h x)"
  by (auto simp: closed_def nth_list_update)

lemma fired_close: "ch < length h \<Longrightarrow> fired (h[ch := True]) d = (d = Some ch \<or> fired h d)"
  by (cases d) (auto simp: fired_def closed_close)

lemma chan_ok_close: "chan_ok (h[ch := True]) d = chan_ok h d"
  by (cases d) (simp_all add: chan_ok_def)

lemma chan_ok_make: "chan_ok h d \<Longrightarrow> chan_ok (h @ [x]) d"
  by (cases d) (simp_all add: chan_ok_def)

lemma input_condition_simps:
  "input_condition OrPolicy (c, rt) =
     (fired (chans rt) (ctx_Done (Ctx1 c)) \<or> fired (chans rt) (ctx_Done (Ctx2 c)))"
  "input_condition AndPolicy (c, rt) =
     ((ctx_Done (Ctx1 c) \<noteq> None \<or> ctx_Done (Ctx2 c) \<noteq> None) \<and>
      (ctx_Done (Ctx1 c) = None \<or> fired (chans rt) (ctx_Done (Ctx1 c))) \<and>
      (ctx_Done (Ctx2 c) = None \<or> fired (chans rt) (ctx_Done (Ctx2 c))))"
  by (simp_all add: input_condition_def)

lemma watcher_ok_simps:
  "watcher_ok p (c, rt) ch (OrDone done1 done2 d) =
     (p = OrPolicy \<and> d = ch \<and> \<not> closed (chans rt) ch \<and>
      done1 = ctx_Done (Ctx1 c) \<and> done2 = ctx_Done (Ctx2 c))"
  "watcher_ok p (c, rt) ch (AndDone done1 done2 d) =
     (p = AndPolicy \<and> d = ch \<and> \<not> closed (chans rt) ch \<and>
      (ctx_Done (Ctx1 c) \<noteq> None \<or> ctx_Done (Ctx2 c) \<noteq> None) \<and>
      (done1 = ctx_Done (Ctx1 c) \<or> done1 = None \<and> fired (chans rt) (ctx_Done (Ctx1 c))) \<and>
      (done2 = ctx_Done (Ctx2 c) \<or> done2 = None \<and> fired (chans rt) (ctx_Done (Ctx2 c))))"
  "watcher_ok p (c, rt) ch (CloseDone d) =
     (d = ch \<and> \<not> closed (chans rt) ch \<and> input_condition p (c, rt))"
  "watcher_ok p (c, rt) ch Returned = (closed (chans rt) ch \<and> input_condition p (c, rt))"
  by (simp_all add: watcher_ok_def)

lemma combined_inv_iff:
  "combined_inv p (c, rt) \<longleftrightarrow>
     chan_ok (chans rt) (ctx_Done (Ctx1 c)) \<and> chan_ok (chans rt) (ctx_Done (Ctx2 c)) \<and>
     (done_chan c = None \<longrightarrow>
        goroutines rt = [] \<and> (onceDone c \<longrightarrow> ctx_Done (Ctx1 c) = None \<and> ctx_Done (Ctx2 c) = None)) \<and>
     (\<forall>ch. done_chan c = Some ch \<longrightarrow>
        onceDone c \<and> ch < length (chans rt) \<and>
        (ctx_Done (Ctx1 c) \<noteq> None \<or> ctx_Done (Ctx2 c) \<noteq> None) \<and>
        ctx_Done (Ctx1 c) \<noteq> Some ch \<and> ctx_Done (Ctx2 c) \<noteq> Some ch \<and>
        (\<exists>g. goroutines rt = [g] \<and> watcher_ok p (c, rt) ch g))"
proof (cases "done_chan c")
  case None
  then show ?thesis by (simp add: combined_inv_def)
next
  case (Some ch)
  have "(case goroutines rt of [] \<Rightarrow> False | [g] \<Rightarrow> watcher_ok p (c, rt) ch g | _ \<Rightarrow> False)
        = (\<exists>g. goroutines rt = [g] \<and> watcher_ok p (c, rt) ch g)"
    by (cases "goroutines rt"; cases "tl (goroutines rt)") auto
  with Some show ?thesis by (simp add: combined_inv_def)
qed

lemma combined_inv_start:
  "chan_ok h (ctx_Done ctx1) \<Longrightarrow> chan_ok h (ctx_Done ctx2) \<Longrightarrow> combined_inv p (start p ctx1 ctx2 h)"
  by (cases p) (simp_all add: combined_inv_iff start_def New_def NewOrContext_def NewAndContext_def)

lemma input_condition_close:
  "input_condition p (c, rt) \<Longrightarrow> ch < length (chans rt) \<Longrightarrow>
   input_condition p (c, rt\<lparr>chans := (chans rt)[ch := True]\<rparr>)"
  by (cases p) (auto simp: input_condition_simps fired_close)

lemma watcher_ok_close:
  "watcher_ok p (c, rt) x g \<Longrightarrow> ch < length (chans rt) \<Longrightarrow> ch \<noteq> x \<Longrightarrow>
   watcher_ok p (c, rt\<lparr>chans := (chans rt)[ch := True]\<rparr>) x g"
  using input_condition_close [of p c rt ch]
  by (cases g) (auto simp: watcher_ok_simps closed_close fired_close)

lemma combined_inv_Cancel:
  assumes "combined_inv p s" "step p (Cancel ch) s = Some s'"
  shows "combined_inv p s'"
proof -
  obtain c rt where s: "s = (c, rt)" by (cases s)
  from assms(2) have ne: "done_chan c \<noteq> Some ch" and lt: "ch < length (chans rt)"
    and s': "s' = (c, rt\<lparr>chans := (chans rt)[ch := True]\<rparr>)"
    by (auto simp: s close_chan_def split: if_splits)
  from assms(1) show ?thesis
    unfolding s s' combined_inv_iff using ne lt
    by (auto simp: chan_ok_close intro: watcher_ok_close)
qed

lemma combined_inv_frame:
  assumes "ctx_Done (Ctx1 c') = ctx_Done (Ctx1 c)" "ctx_Done (Ctx2 c') = ctx_Done (Ctx2 c)"
    "done_chan c' = done_chan c" "onceDone c' = onceDone c"
    "chans rt' = chans rt" "goroutines rt' = goroutines rt"
  shows "combined_inv p (c', rt') = combined_inv p (c, rt)"
proof -
  have i: "input_condition p (c', rt') = input_condition p (c, rt)"
    using assms by (cases p) (simp_all add: input_condition_simps)
  have w: "watcher_ok p (c', rt') ch g = watcher_ok p (c, rt) ch g" for ch g
    using assms i by (cases g) (simp_all add: watcher_ok_simps)
  show ?thesis using assms by (simp add: combined_inv_iff w)
qed

lemma combined_inv_SetErr1: "combined_inv p s \<Longrightarrow> step p (SetErr1 e) s = Some s' \<Longrightarrow> combined_inv p s'"
  by (cases s) (auto simp: combined_inv_frame [where c' = "c\<lparr>Ctx1 := x\<lparr>ctx_Err := e\<rparr>\<rparr>" for c x e])

lemma combined_inv_SetErr2: "combined_inv p s \<Longrightarrow> step p (SetErr2 e) s = Some s' \<Longrightarrow> combined_inv p s'"
  by (cases s) (auto simp: combined_inv_frame [where c' = "c\<lparr>Ctx2 := x\<lparr>ctx_Err := e\<rparr>\<rparr>" for c x e])

text \<open>Deadline changes nothing but its own three fields and the record of computations.\<close>

lemma Deadline_frame:
  "Deadline p (c, rt) = (r, (c', rt')) \<Longrightarrow>
   Ctx1 c' = Ctx1 c \<and> Ctx2 c' = Ctx2 c \<and> done_chan c' = done_chan c \<and> onceDone c' = onceDone c \<and>
   onceErr c' = onceErr c \<and> err c' = err c \<and> chans rt' = chans rt \<and> goroutines rt' = goroutines rt"
  by (cases p)
     (auto simp: Deadline_def OrContext_Deadline_def AndContext_Deadline_def Let_def split_beta
           split: if_splits)

lemma combined_inv_CallDeadline: "combined_inv p s \<Longrightarrow> step p CallDeadline s = Some s' \<Longrightarrow> combined_inv p s'"
proof -
  assume a: "combined_inv p s" "step p CallDeadline s = Some s'"
  obtain c rt where s: "s = (c, rt)" by (cases s)
  obtain r c' rt' where d: "Deadline p (c, rt) = (r, (c', rt'))" by (metis prod.exhaust)
  from a d have "s' = (c', rt')" by (simp add: s)
  with Deadline_frame [OF d] a(1) show ?thesis by (simp add: s combined_inv_frame [of c' c rt' rt])
qed

lemma Done_eq:
  "Done p (c, rt) =
     (if onceDone c then (done_chan c, (c, rt))
      else if ctx_Done (Ctx1 c) = None \<and> ctx_Done (Ctx2 c) = None
      then (done_chan c, (c\<lparr>onceDone := True\<rparr>, rt\<lparr>computed := computed rt @ [QDone]\<rparr>))
      else (Some (length (chans rt)),
            (c\<lparr>done_chan := Some (length (chans rt)), onceDone := True\<rparr>,
             rt\<lparr>computed := computed rt @ [QDone], chans := chans rt @ [False],
                goroutines := goroutines rt @ [spawned p c (length (chans rt))]\<rparr>)))"
  by (cases p) (simp_all add: Done_def OrContext_Done_def AndContext_Done_def Let_def spawned_def)

lemma recv_fired: "recv h d = (if fired h d then Some False else None)"
  by (cases d) (simp_all add: fired_def)

lemma Err_simps:
  "Err p ErrEntry s = Some (ErrSelect (fst (Done p s)), snd (Done p s))"
  "Err p (ErrSelect d) s = Some (if fired (chans (snd s)) d then ErrOnce else ErrDefault, s)"
  "Err p ErrOnce s =
     (if onceErr (fst s) then Some (ErrReturn, s)
      else if list_ex is_ErrBody (err_calls (snd s)) then None
      else Some (ErrBody (ctx_Err (Ctx1 (fst s))), s))"
  "Err p (ErrBody e1) s =
     Some (ErrReturn,
           ((fst s)\<lparr>err := errors_Join [e1, ctx_Err (Ctx2 (fst s))], onceErr := True\<rparr>,
            (snd s)\<lparr>computed := computed (snd s) @ [QErr]\<rparr>))"
  "Err p ErrReturn s = Some (ErrReturned (err (fst s)), s)"
  "Err p ErrDefault s = None"
  "Err p (ErrReturned r) s = None"
  by (cases s; cases p; simp add: Err_def Done_def recv_fired split_beta)+

lemma Done_err_calls: "err_calls (snd (snd (Done p s))) = err_calls (snd s)"
  by (cases s) (simp add: Done_eq)

text \<open>
  A step of a call of \<open>Err\<close> is the call of \<open>Done\<close>, or the end of the body of
  \<open>onceErr.Do\<close>, or changes nothing but where the call stands.
\<close>

lemma ErrStep_cases:
  assumes "step p (ErrStep i) s = Some s'"
  obtains
    (entry) "i < length (err_calls (snd s))" "err_calls (snd s) ! i = ErrEntry"
      "s' = (fst (snd (Done p s)),
             (snd (snd (Done p s)))\<lparr>err_calls := (err_calls (snd s))[i := ErrSelect (fst (Done p s))]\<rparr>)"
  | (body) e1 where "i < length (err_calls (snd s))" "err_calls (snd s) ! i = ErrBody e1"
      "s' = ((fst s)\<lparr>err := errors_Join [e1, ctx_Err (Ctx2 (fst s))], onceErr := True\<rparr>,
             (snd s)\<lparr>computed := computed (snd s) @ [QErr],
                      err_calls := (err_calls (snd s))[i := ErrReturn]\<rparr>)"
  | (pure) k' where "i < length (err_calls (snd s))"
      "Err p (err_calls (snd s) ! i) s = Some (k', s)"
      "\<not> is_ErrBody (err_calls (snd s) ! i)" "err_calls (snd s) ! i \<noteq> ErrEntry"
      "s' = (fst s, (snd s)\<lparr>err_calls := (err_calls (snd s))[i := k']\<rparr>)"
proof -
  obtain c rt where s: "s = (c, rt)" by (cases s)
  from assms have i: "i < length (err_calls rt)" by (simp add: s split: if_splits)
  show ?thesis
  proof (cases "err_calls rt ! i")
    case ErrEntry
    have dc: "err_calls (snd (snd (Done p (c, rt)))) = err_calls rt"
      using Done_err_calls [of p "(c, rt)"] by simp
    from assms i ErrEntry have "s' = (fst (snd (Done p s)),
             (snd (snd (Done p s)))\<lparr>err_calls := (err_calls (snd s))[i := ErrSelect (fst (Done p s))]\<rparr>)"
      by (simp add: s Err_simps split_beta dc)
    with ErrEntry i show ?thesis by (intro entry) (simp_all add: s)
  next
    case (ErrSelect d)
    with assms i show ?thesis by (intro pure [of "if fired (chans rt) d then ErrOnce else ErrDefault"]) (auto simp: s Err_simps)
  next
    case ErrOnce
    with assms i show ?thesis
      by (intro pure [of "if onceErr c then ErrReturn else ErrBody (ctx_Err (Ctx1 c))"])
         (auto simp: s Err_simps split: if_splits)
  next
    case (ErrBody e1)
    with assms i show ?thesis by (intro body [of e1]) (auto simp: s Err_simps)
  next
    case ErrReturn
    with assms i show ?thesis by (intro pure [of "ErrReturned (err c)"]) (auto simp: s Err_simps)
  next
    case ErrDefault
    with assms i show ?thesis by (simp add: s Err_simps)
  next
    case (ErrReturned r)
    with assms i show ?thesis by (simp add: s Err_simps)
  qed
qed

lemma watcher_ok_spawned:
  "ctx_Done (Ctx1 c) \<noteq> None \<or> ctx_Done (Ctx2 c) \<noteq> None \<Longrightarrow> ctx_Done (Ctx1 c') = ctx_Done (Ctx1 c) \<Longrightarrow>
   ctx_Done (Ctx2 c') = ctx_Done (Ctx2 c) \<Longrightarrow> chans rt' = h @ [False] \<Longrightarrow>
   watcher_ok p (c', rt') (length h) (spawned p c (length h))"
  by (cases p) (auto simp: spawned_def watcher_ok_simps closed_def)

lemma combined_inv_Done:
  assumes "combined_inv p (c, rt)"
  shows "combined_inv p (snd (Done p (c, rt)))"
proof (cases "onceDone c")
  case True
  with assms show ?thesis by (simp add: Done_eq)
next
  case False
  with assms have dn: "done_chan c = None" and g: "goroutines rt = []"
    and ok: "chan_ok (chans rt) (ctx_Done (Ctx1 c))" "chan_ok (chans rt) (ctx_Done (Ctx2 c))"
    by (auto simp: combined_inv_iff)
  show ?thesis
  proof (cases "ctx_Done (Ctx1 c) = None \<and> ctx_Done (Ctx2 c) = None")
    case True
    with False dn g ok show ?thesis by (simp add: Done_eq combined_inv_iff)
  next
    case both: False
    have ne: "ctx_Done (Ctx1 c) \<noteq> Some (length (chans rt))" "ctx_Done (Ctx2 c) \<noteq> Some (length (chans rt))"
      using ok by (auto simp: chan_ok_def)
    have w: "watcher_ok p (c\<lparr>done_chan := Some (length (chans rt)), onceDone := True\<rparr>,
             rt\<lparr>computed := computed rt @ [QDone], chans := chans rt @ [False],
                goroutines := [spawned p c (length (chans rt))]\<rparr>) (length (chans rt))
              (spawned p c (length (chans rt)))"
      using both by (intro watcher_ok_spawned) auto
    from False both ne g ok w show ?thesis
      by (auto simp: Done_eq combined_inv_iff chan_ok_make)
  qed
qed

lemma combined_inv_CallDone: "combined_inv p s \<Longrightarrow> step p CallDone s = Some s' \<Longrightarrow> combined_inv p s'"
  using combined_inv_Done by (cases s) auto

lemma combined_inv_CallErr: "combined_inv p s \<Longrightarrow> step p CallErr s = Some s' \<Longrightarrow> combined_inv p s'"
  by (cases s) (auto simp: combined_inv_frame [of c c "rt\<lparr>err_calls := x\<rparr>" rt for c rt x])

lemma combined_inv_ErrStep:
  assumes i: "combined_inv p s" and st: "step p (ErrStep n) s = Some s'"
  shows "combined_inv p s'"
  using st
proof (cases rule: ErrStep_cases)
  case entry
  obtain d c1 rt1 where d: "Done p s = (d, (c1, rt1))" by (metis prod.exhaust)
  from combined_inv_Done [of p "fst s" "snd s"] i d have "combined_inv p (c1, rt1)" by simp
  with entry(3) d show ?thesis
    by (simp add: combined_inv_frame [of c1 c1 "rt1\<lparr>err_calls := x\<rparr>" rt1 for x])
next
  case (body e1)
  with i show ?thesis
    by (cases s)
       (simp add: combined_inv_frame [of "c\<lparr>err := x, onceErr := True\<rparr>" c
                    "rt\<lparr>computed := y, err_calls := z\<rparr>" rt for c rt x y z])
next
  case (pure k')
  with i show ?thesis
    by (cases s) (simp add: combined_inv_frame [of c c "rt\<lparr>err_calls := x\<rparr>" rt for c rt x])
qed

lemma combined_inv_Watcher:
  assumes i: "combined_inv p s" and st: "step p (Watcher n second) s = Some s'"
  shows "combined_inv p s'"
proof -
  obtain c rt where s: "s = (c, rt)" by (cases s)
  from st obtain g' h' where n: "n < length (goroutines rt)"
    and gs: "goroutine_step second (chans rt) (goroutines rt ! n) = Some (g', h')"
    and s': "s' = (c, rt\<lparr>chans := h', goroutines := (goroutines rt)[n := g']\<rparr>)"
    by (auto simp: s split: if_splits option.splits)
  from i n obtain ch g where dc: "done_chan c = Some ch" and g: "goroutines rt = [g]"
    and w: "watcher_ok p (c, rt) ch g" and once: "onceDone c" and lt: "ch < length (chans rt)"
    and ne: "ctx_Done (Ctx1 c) \<noteq> Some ch" "ctx_Done (Ctx2 c) \<noteq> Some ch"
    and some: "ctx_Done (Ctx1 c) \<noteq> None \<or> ctx_Done (Ctx2 c) \<noteq> None"
    and ok: "chan_ok (chans rt) (ctx_Done (Ctx1 c))" "chan_ok (chans rt) (ctx_Done (Ctx2 c))"
    unfolding s combined_inv_iff by (cases "done_chan c") auto
  from n g have n0: "n = 0" by simp
  have gs0: "goroutine_step second (chans rt) g = Some (g', h')" using gs g n0 by simp
  have "chan_ok h' (ctx_Done (Ctx1 c)) \<and> chan_ok h' (ctx_Done (Ctx2 c)) \<and> ch < length h' \<and>
        watcher_ok p (c, rt\<lparr>chans := h', goroutines := [g']\<rparr>) ch g'"
  proof (cases g)
    case (OrDone done1 done2 d)
    with gs0 w ok lt show ?thesis
      by (cases second)
         (auto simp: watcher_ok_simps input_condition_simps recv_fired split: if_splits)
  next
    case (AndDone done1 done2 d)
    with gs0 w ok lt show ?thesis
      by (cases second)
         (auto simp: watcher_ok_simps input_condition_simps recv_fired split: if_splits)
  next
    case (CloseDone d)
    with gs0 w have h': "h' = (chans rt)[ch := True]" and g': "g' = Returned"
      and ic: "input_condition p (c, rt)"
      by (auto simp: watcher_ok_simps close_chan_def split: if_splits)
    from input_condition_close [OF ic lt]
    have "input_condition p (c, rt\<lparr>chans := h', goroutines := [g']\<rparr>)"
      unfolding h' by (cases p) (simp_all add: input_condition_simps)
    with lt ok show ?thesis by (simp add: h' g' watcher_ok_simps chan_ok_close closed_close)
  next
    case Returned
    with gs0 show ?thesis by simp
  qed
  with dc once ne some show ?thesis by (simp add: s' g n0 combined_inv_iff)
qed

lemma combined_inv_step: "combined_inv p s \<Longrightarrow> step p e s = Some s' \<Longrightarrow> combined_inv p s'"
  by (cases e)
     (blast intro: combined_inv_Cancel combined_inv_SetErr1 combined_inv_SetErr2
        combined_inv_CallDeadline combined_inv_CallDone combined_inv_CallErr combined_inv_ErrStep
        combined_inv_Watcher)+

lemma combined_inv_run:
  assumes "chan_ok h (ctx_Done ctx1)" "chan_ok h (ctx_Done ctx2)"
    and "run p es (start p ctx1 ctx2 h) = Some s"
  shows "combined_inv p s"
proof (rule run_invariant [where P = "combined_inv p" and p = p])
  show "combined_inv p (start p ctx1 ctx2 h)" using assms(1,2) by (rule combined_inv_start)
  show "run p es (start p ctx1 ctx2 h) = Some s" by fact
qed (rule combined_inv_step)

lemma combined_inv_fired: "combined_inv p s \<Longrightarrow> derived_fired s \<Longrightarrow> input_condition p s"
proof -
  assume a: "combined_inv p s" "derived_fired s"
  obtain c rt where s: "s = (c, rt)" by (cases s)
  from a(2) obtain ch where dc: "done_chan c = Some ch" and cl: "closed (chans rt) ch"
    by (auto simp: s derived_fired_def fired_def split: option.splits)
  with a(1) obtain g where "watcher_ok p (c, rt) ch g" by (auto simp: s combined_inv_iff)
  with cl show ?thesis by (cases g) (auto simp: s watcher_ok_simps)
qed

lemma Done_not_fired:
  "\<not> derived_fired s \<Longrightarrow> \<not> derived_fired (snd (Done p s))"
  by (cases s) (auto simp: Done_eq derived_fired_def fired_def closed_def nth_append split: option.splits)

lemma Done_fires_nothing:
  "\<not> derived_fired s \<Longrightarrow> \<not> fired (chans (snd (snd (Done p s)))) (fst (Done p s))"
  by (cases s) (auto simp: Done_eq derived_fired_def fired_def closed_def nth_append split: option.splits)

lemma firing_step:
  assumes i: "combined_inv p s" and st: "step p e s = Some s'"
    and n: "\<not> derived_fired s" and f: "derived_fired s'"
  shows "input_condition p s"
proof -
  obtain c rt where s: "s = (c, rt)" by (cases s)
  show ?thesis
  proof (cases e)
    case (Cancel ch)
    with st n f show ?thesis
      by (auto simp: s derived_fired_def close_chan_def fired_close split: if_splits)
  next
    case (SetErr1 x)
    with st n f show ?thesis by (auto simp: s derived_fired_def)
  next
    case (SetErr2 x)
    with st n f show ?thesis by (auto simp: s derived_fired_def)
  next
    case CallDeadline
    obtain r c' rt' where d: "Deadline p (c, rt) = (r, (c', rt'))" by (metis prod.exhaust)
    with CallDeadline st have "s' = (c', rt')" by (simp add: s)
    with Deadline_frame [OF d] n f show ?thesis by (simp add: s derived_fired_def)
  next
    case CallDone
    with st n f Done_not_fired [of s p] show ?thesis by (auto simp: s)
  next
    case CallErr
    with st n f show ?thesis by (auto simp: s derived_fired_def)
  next
    case (ErrStep k)
    with st have "step p (ErrStep k) s = Some s'" by simp
    then show ?thesis
    proof (cases rule: ErrStep_cases)
      case entry
      with Done_not_fired [of s p] n f show ?thesis
        by (cases "Done p s") (auto simp: derived_fired_def)
    next
      case (body e1)
      with n f show ?thesis by (auto simp: s derived_fired_def)
    next
      case (pure k')
      with n f show ?thesis by (auto simp: s derived_fired_def)
    qed
  next
    case (Watcher k second)
    with st obtain g' h' where k: "k < length (goroutines rt)"
      and gs: "goroutine_step second (chans rt) (goroutines rt ! k) = Some (g', h')"
      and s': "s' = (c, rt\<lparr>chans := h', goroutines := (goroutines rt)[k := g']\<rparr>)"
      by (auto simp: s split: if_splits option.splits)
    from i k obtain ch g where dc: "done_chan c = Some ch" and g: "goroutines rt = [g]"
      and w: "watcher_ok p (c, rt) ch g"
      unfolding s combined_inv_iff by (cases "done_chan c") auto
    from k g gs have gs0: "goroutine_step second (chans rt) g = Some (g', h')" by simp
    show ?thesis
    proof (cases g)
      case (OrDone done1 done2 d)
      with gs0 have "h' = chans rt" by (auto split: option.splits)
      with n f show ?thesis by (simp add: s s' derived_fired_def)
    next
      case (AndDone done1 done2 d)
      with gs0 have "h' = chans rt" by (auto split: option.splits if_splits)
      with n f show ?thesis by (simp add: s s' derived_fired_def)
    next
      case (CloseDone d)
      with w show ?thesis by (simp add: s watcher_ok_simps)
    next
      case Returned
      with gs0 show ?thesis by simp
    qed
  qed
qed

lemma Done_inputs:
  "Ctx1 (fst (snd (Done p s))) = Ctx1 (fst s) \<and> Ctx2 (fst (snd (Done p s))) = Ctx2 (fst s)"
  by (cases s) (simp add: Done_eq)

lemma Deadline_inputs:
  "Ctx1 (fst (snd (Deadline p s))) = Ctx1 (fst s) \<and> Ctx2 (fst (snd (Deadline p s))) = Ctx2 (fst s)"
proof -
  obtain c rt where s: "s = (c, rt)" by (cases s)
  obtain r c' rt' where d: "Deadline p (c, rt) = (r, (c', rt'))" by (metis prod.exhaust)
  from Deadline_frame [OF d] show ?thesis by (simp add: s d)
qed

lemma same_inputs_step:
  "same_inputs ctx1 ctx2 s \<Longrightarrow> step p e s = Some s' \<Longrightarrow> same_inputs ctx1 ctx2 s'"
proof (cases e)
  case CallDeadline
  assume "same_inputs ctx1 ctx2 s" "step p e s = Some s'"
  with CallDeadline Deadline_inputs [of p s] show ?thesis
    by (cases s) (auto simp: same_inputs_def)
next
  case CallDone
  assume "same_inputs ctx1 ctx2 s" "step p e s = Some s'"
  with CallDone Done_inputs [of p s] show ?thesis
    by (cases s) (auto simp: same_inputs_def)
next
  case (ErrStep k)
  assume a: "same_inputs ctx1 ctx2 s" "step p e s = Some s'"
  with ErrStep have "step p (ErrStep k) s = Some s'" by simp
  then show ?thesis
  proof (cases rule: ErrStep_cases)
    case entry
    with a Done_inputs [of p s] show ?thesis by (simp add: same_inputs_def)
  next
    case (body e1)
    with a show ?thesis by (simp add: same_inputs_def)
  next
    case (pure k')
    with a show ?thesis by (simp add: same_inputs_def)
  qed
qed (cases s; auto simp: same_inputs_def split: if_splits option.splits)+

lemma same_inputs_run:
  assumes "run p es (start p ctx1 ctx2 h) = Some s"
  shows "same_inputs ctx1 ctx2 s"
proof (rule run_invariant [where P = "same_inputs ctx1 ctx2" and p = p])
  show "same_inputs ctx1 ctx2 (start p ctx1 ctx2 h)"
    by (cases p) (simp_all add: same_inputs_def start_def New_def NewOrContext_def NewAndContext_def)
  show "run p es (start p ctx1 ctx2 h) = Some s" by fact
qed (rule same_inputs_step)

lemma Done_result: "fst (Done p s) = done_chan (fst (snd (Done p s)))"
  by (cases s) (simp add: Done_eq)

lemma Done_err_frame:
  "onceErr (fst (snd (Done p s))) = onceErr (fst s) \<and> err (fst (snd (Done p s))) = err (fst s) \<and>
   onceDeadline (fst (snd (Done p s))) = onceDeadline (fst s) \<and>
   deadline (fst (snd (Done p s))) = deadline (fst s) \<and>
   okDeadline (fst (snd (Done p s))) = okDeadline (fst s)"
  by (cases s) (simp add: Done_eq)

lemma Done_memo: "onceDone (fst s) \<Longrightarrow> Done p s = (done_chan (fst s), s)"
  by (cases s) (simp add: Done_eq)

lemma Done_sets_once: "onceDone (fst (snd (Done p s)))"
  by (cases s) (simp add: Done_eq)

lemma goroutine_step_chans:
  "goroutine_step second h g = Some (g', h') \<Longrightarrow> fired h d \<Longrightarrow> fired h' d"
  by (cases g)
     (auto simp: close_chan_def fired_close split: option.splits if_splits)

lemma derived_fired_step:
  assumes "combined_inv p s" "derived_fired s" "step p e s = Some s'"
  shows "derived_fired s'"
proof -
  obtain c rt where s: "s = (c, rt)" by (cases s)
  from assms(1,2) have once: "onceDone c"
    by (cases "done_chan c") (auto simp: s combined_inv_iff derived_fired_def fired_def)
  show ?thesis
  proof (cases e)
    case (Cancel ch)
    with assms show ?thesis
      by (auto simp: s derived_fired_def close_chan_def fired_close split: if_splits)
  next
    case (SetErr1 x)
    with assms show ?thesis by (auto simp: s derived_fired_def)
  next
    case (SetErr2 x)
    with assms show ?thesis by (auto simp: s derived_fired_def)
  next
    case CallDeadline
    obtain r c' rt' where d: "Deadline p (c, rt) = (r, (c', rt'))" by (metis prod.exhaust)
    with CallDeadline assms(3) have "s' = (c', rt')" by (simp add: s)
    with Deadline_frame [OF d] assms(2) show ?thesis by (simp add: s derived_fired_def)
  next
    case CallDone
    with assms once show ?thesis by (simp add: s Done_eq)
  next
    case CallErr
    with assms show ?thesis by (auto simp: s derived_fired_def)
  next
    case (ErrStep k)
    with assms(3) have "step p (ErrStep k) s = Some s'" by simp
    then show ?thesis
    proof (cases rule: ErrStep_cases)
      case entry
      with assms(2) once show ?thesis by (simp add: s Done_eq derived_fired_def)
    next
      case (body e1)
      with assms(2) show ?thesis by (simp add: s derived_fired_def)
    next
      case (pure k')
      with assms(2) show ?thesis by (simp add: s derived_fired_def)
    qed
  next
    case (Watcher k second)
    with assms(3) obtain g' h' where
      gs: "goroutine_step second (chans rt) (goroutines rt ! k) = Some (g', h')"
      and s': "s' = (c, rt\<lparr>chans := h', goroutines := (goroutines rt)[k := g']\<rparr>)"
      by (auto simp: s split: if_splits option.splits)
    from goroutine_step_chans [OF gs] assms(2) show ?thesis
      by (simp add: s s' derived_fired_def)
  qed
qed

text \<open>What a once flag guards is not written again.\<close>

lemma memo_step:
  assumes "step p e s = Some s'"
  shows "(onceDeadline (fst s) \<longrightarrow> onceDeadline (fst s') \<and> deadline (fst s') = deadline (fst s) \<and>
            okDeadline (fst s') = okDeadline (fst s)) \<and>
         (onceDone (fst s) \<longrightarrow> onceDone (fst s') \<and> done_chan (fst s') = done_chan (fst s))"
proof -
  obtain c rt where s: "s = (c, rt)" by (cases s)
  show ?thesis
  proof (cases e)
    case CallDeadline
    with assms show ?thesis
      by (cases p)
         (auto simp: s Deadline_def OrContext_Deadline_def AndContext_Deadline_def Let_def split_beta)
  next
    case CallDone
    with assms have s': "s' = snd (Done p s)" by (simp add: s)
    from Done_err_frame [of p s] Done_memo [of s p] show ?thesis by (auto simp: s')
  next
    case (ErrStep k)
    with assms have "step p (ErrStep k) s = Some s'" by simp
    then show ?thesis
    proof (cases rule: ErrStep_cases)
      case entry
      with Done_err_frame [of p s] Done_memo [of s p] show ?thesis by auto
    next
      case (body e1)
      then show ?thesis by simp
    next
      case (pure k')
      then show ?thesis by simp
    qed
  qed (use assms in \<open>auto simp: s split: if_splits option.splits\<close>)
qed

text \<open>
  Only the end of the body of \<open>onceErr.Do\<close> writes the error field and its flag.
\<close>

lemma err_fields_step:
  assumes st: "step p e s = Some s'"
    and nb: "\<And>i e1. e = ErrStep i \<Longrightarrow> err_calls (snd s) ! i \<noteq> ErrBody e1"
  shows "onceErr (fst s') = onceErr (fst s) \<and> err (fst s') = err (fst s)"
proof (cases e)
  case CallDeadline
  obtain r c' rt' where d: "Deadline p (fst s, snd s) = (r, (c', rt'))" by (metis prod.exhaust)
  with CallDeadline st have "s' = (c', rt')" by (cases s) simp
  with Deadline_frame [OF d] show ?thesis by simp
next
  case CallDone
  with st Done_err_frame [of p s] show ?thesis by (cases s) auto
next
  case (ErrStep k)
  with st have "step p (ErrStep k) s = Some s'" by simp
  then show ?thesis
  proof (cases rule: ErrStep_cases)
    case entry
    with Done_err_frame [of p s] show ?thesis by simp
  next
    case (body e1)
    with nb [OF ErrStep, of e1] show ?thesis by simp
  next
    case (pure k')
    then show ?thesis by simp
  qed
qed (use st in \<open>cases s; auto split: if_splits option.splits\<close>)+

lemma calls_step:
  assumes "step p e s = Some s'" "e \<noteq> CallErr" "\<And>i. e \<noteq> ErrStep i"
  shows "err_calls (snd s') = err_calls (snd s)"
proof (cases e)
  case CallDeadline
  obtain r c' rt' where d: "Deadline p (fst s, snd s) = (r, (c', rt'))" by (metis prod.exhaust)
  with CallDeadline assms(1) have s': "s' = (c', rt')" by (cases s) simp
  from d show ?thesis unfolding s'
    by (cases p)
       (auto simp: Deadline_def OrContext_Deadline_def AndContext_Deadline_def Let_def split_beta
          split: if_splits)
next
  case CallDone
  with assms(1) Done_err_calls [of p s] show ?thesis by (cases s) auto
qed (use assms in \<open>cases s; auto split: if_splits option.splits\<close>)+

lemma call_ok_simps:
  "call_ok s ErrEntry"
  "call_ok s (ErrSelect d) = (d = done_chan (fst s) \<and> onceDone (fst s))"
  "call_ok s ErrOnce = derived_fired s"
  "call_ok s (ErrBody e1) = (derived_fired s \<and> \<not> onceErr (fst s))"
  "call_ok s ErrReturn = (derived_fired s \<and> onceErr (fst s))"
  "call_ok s ErrDefault"
  "call_ok s (ErrReturned r) = (derived_fired s \<and> onceErr (fst s) \<and> r = err (fst s))"
  by (simp_all add: call_ok_def)

lemma call_ok_frame:
  assumes "done_chan (fst s') = done_chan (fst s)" "onceDone (fst s') = onceDone (fst s)"
    "onceErr (fst s') = onceErr (fst s)" "err (fst s') = err (fst s)"
    "derived_fired s' = derived_fired s"
  shows "call_ok s' k = call_ok s k"
  using assms by (cases k) (simp_all add: call_ok_simps)

text \<open>
  What holds of a call stays true as long as no call leaves the body of \<open>onceErr.Do\<close>.
\<close>

lemma call_ok_step:
  assumes i: "combined_inv p s" and st: "step p e s = Some s'" and ok: "call_ok s k"
    and nb: "\<And>i e1. e = ErrStep i \<Longrightarrow> err_calls (snd s) ! i \<noteq> ErrBody e1"
  shows "call_ok s' k"
proof -
  note f = err_fields_step [OF st nb]
  note m = memo_step [OF st]
  have d: "derived_fired s \<Longrightarrow> derived_fired s'" using derived_fired_step [OF i _ st] .
  from ok f m d show ?thesis by (cases k) (auto simp: call_ok_simps)
qed

lemma inv_calls_iff:
  "inv_calls s \<longleftrightarrow>
     (\<forall>j < length (err_calls (snd s)). call_ok s (err_calls (snd s) ! j)) \<and>
     (\<forall>i j. i < length (err_calls (snd s)) \<and> j < length (err_calls (snd s)) \<and>
        is_ErrBody (err_calls (snd s) ! i) \<and> is_ErrBody (err_calls (snd s) ! j) \<longrightarrow> i = j)"
  by (simp add: inv_calls_def)

lemma inv_calls_other:
  assumes "inv_calls s" "step p e s = Some s'" "combined_inv p s"
    "e \<noteq> CallErr" "\<And>i. e \<noteq> ErrStep i"
  shows "inv_calls s'"
proof -
  from calls_step [OF assms(2,4,5)] have c: "err_calls (snd s') = err_calls (snd s)" .
  have "call_ok s' k" if "call_ok s k" for k
    using call_ok_step [OF assms(3,2) that] assms(5) by blast
  with assms(1) show ?thesis unfolding inv_calls_iff c by blast
qed

lemma inv_calls_CallErr:
  assumes "inv_calls s" "step p CallErr s = Some s'"
  shows "inv_calls s'"
proof -
  obtain c rt where s: "s = (c, rt)" by (cases s)
  from assms(2) have s': "s' = (c, rt\<lparr>err_calls := err_calls rt @ [ErrEntry]\<rparr>)" by (simp add: s)
  have ok: "call_ok s' k = call_ok s k" for k
    by (rule call_ok_frame) (simp_all add: s s' derived_fired_def)
  from assms(1) show ?thesis
    unfolding inv_calls_iff ok
    by (auto simp: s s' nth_append call_ok_simps less_Suc_eq)
qed

lemma inv_calls_ErrStep:
  assumes ic: "inv_calls s" and st: "step p (ErrStep n) s = Some s'" and i: "combined_inv p s"
  shows "inv_calls s'"
proof -
  let ?cs = "err_calls (snd s)"
  from ic have all: "\<And>j. j < length ?cs \<Longrightarrow> call_ok s (?cs ! j)"
    and uniq: "\<And>i j. i < length ?cs \<Longrightarrow> j < length ?cs \<Longrightarrow> is_ErrBody (?cs ! i) \<Longrightarrow>
                 is_ErrBody (?cs ! j) \<Longrightarrow> i = j"
    unfolding inv_calls_iff by blast+
  from st show ?thesis
  proof (cases rule: ErrStep_cases)
    case entry
    have cs': "err_calls (snd s') = ?cs[n := ErrSelect (fst (Done p s))]" using entry(3) by simp
    have nb: "\<And>i e1. ErrStep n = ErrStep i \<Longrightarrow> ?cs ! i \<noteq> ErrBody e1" using entry(2) by auto
    have old: "call_ok s' (?cs ! j)" if "j < length ?cs" for j
      using call_ok_step [OF i st all [OF that] nb] .
    have new: "call_ok s' (ErrSelect (fst (Done p s)))"
      using entry(3) Done_result [of p s] Done_sets_once [of p s] by (simp add: call_ok_simps)
    show ?thesis
      unfolding inv_calls_iff cs' using old new uniq entry(1,2)
      by (auto simp: nth_list_update)
  next
    case (body e1)
    have cs': "err_calls (snd s') = ?cs[n := ErrReturn]" using body(3) by simp
    from all [OF body(1)] body(2) have f: "derived_fired s" and no: "\<not> onceErr (fst s)"
      by (simp_all add: call_ok_simps)
    have df: "derived_fired s'" using f body(3) by (simp add: derived_fired_def)
    have o': "onceErr (fst s')" using body(3) by simp
    have old: "call_ok s' (?cs ! j)" if j: "j < length ?cs" "j \<noteq> n" for j
    proof -
      have nbj: "\<not> is_ErrBody (?cs ! j)" using uniq [OF j(1) body(1)] body(2) j(2) by auto
      from all [OF j(1)] no nbj df body(3) show ?thesis
        by (cases "?cs ! j") (simp_all add: call_ok_simps)
    qed
    have new: "call_ok s' ErrReturn" using df o' by (simp add: call_ok_simps)
    show ?thesis
      unfolding inv_calls_iff cs' using old new uniq body(1)
      by (auto simp: nth_list_update)
  next
    case (pure k')
    have cs': "err_calls (snd s') = ?cs[n := k']" using pure(5) by simp
    have ok: "call_ok s' k = call_ok s k" for k
      by (rule call_ok_frame) (simp_all add: pure(5) derived_fired_def)
    have new: "call_ok s k'"
    proof (cases "?cs ! n")
      case (ErrSelect d)
      with all [OF pure(1)] pure(2) show ?thesis
        by (auto simp: Err_simps call_ok_simps derived_fired_def split: if_splits)
    next
      case ErrOnce
      with all [OF pure(1)] pure(2) show ?thesis
        by (auto simp: Err_simps call_ok_simps split: if_splits)
    next
      case ErrReturn
      with all [OF pure(1)] pure(2) show ?thesis by (auto simp: Err_simps call_ok_simps)
    qed (use pure(2,3,4) in \<open>simp_all add: Err_simps\<close>)
    have nobody: "\<not> is_ErrBody (?cs ! j)" if "is_ErrBody k'" "j < length ?cs" for j
    proof -
      from that(1) pure(2) have "\<not> list_ex is_ErrBody ?cs"
        by (cases "?cs ! n") (auto simp: Err_simps split: if_splits)
      with that(2) show ?thesis by (auto simp: list_ex_iff)
    qed
    show ?thesis
      unfolding inv_calls_iff cs' ok using all new uniq nobody pure(1)
      by (auto simp: nth_list_update split: if_splits)
  qed
qed

lemma inv_calls_step:
  assumes "inv_calls s" "step p e s = Some s'" "combined_inv p s"
  shows "inv_calls s'"
proof (cases "e = CallErr \<or> (\<exists>i. e = ErrStep i)")
  case True
  with assms inv_calls_CallErr inv_calls_ErrStep show ?thesis by blast
next
  case False
  with inv_calls_other [OF assms] show ?thesis by blast
qed

lemma memo_err_step:
  assumes "inv_calls s" "onceErr (fst s)" "step p e s = Some s'"
  shows "onceErr (fst s') \<and> err (fst s') = err (fst s)"
proof -
  have "err_calls (snd s) ! i \<noteq> ErrBody e1" if "e = ErrStep i" for i e1
  proof
    assume b: "err_calls (snd s) ! i = ErrBody e1"
    from assms(3) that have "i < length (err_calls (snd s))"
      by (cases s) (simp split: if_splits)
    with assms(1) b have "call_ok s (ErrBody e1)" unfolding inv_calls_iff by metis
    with assms(2) show False by (simp add: call_ok_simps)
  qed
  from err_fields_step [OF assms(3) this] assms(2) show ?thesis by simp
qed

lemma inv_err_step:
  assumes i: "combined_inv p s" and ic: "inv_calls s" and ie: "inv_err s"
    and st: "step p e s = Some s'"
  shows "inv_err s'"
proof (cases "onceErr (fst s)")
  case True
  with ie have "derived_fired s" by (simp add: inv_err_def)
  from derived_fired_step [OF i this st] memo_err_step [OF ic True st] show ?thesis
    by (simp add: inv_err_def)
next
  case False
  with ie have e0: "err (fst s) = None" by (simp add: inv_err_def)
  show ?thesis
  proof (cases "\<exists>n e1. e = ErrStep n \<and> err_calls (snd s) ! n = ErrBody e1")
    case True
    then obtain n e1 where e: "e = ErrStep n" and b: "err_calls (snd s) ! n = ErrBody e1" by blast
    from st e have st': "step p (ErrStep n) s = Some s'" by simp
    then have n: "n < length (err_calls (snd s))" by (cases s) (simp split: if_splits)
    with ic b have f: "derived_fired s" unfolding inv_calls_iff by (metis call_ok_simps(4))
    from st' show ?thesis
    proof (cases rule: ErrStep_cases)
      case entry
      with b show ?thesis by simp
    next
      case (body e2)
      with f show ?thesis by (simp add: inv_err_def derived_fired_def)
    next
      case (pure k')
      with b show ?thesis by simp
    qed
  next
    case nb: False
    then have "\<And>i e1. e = ErrStep i \<Longrightarrow> err_calls (snd s) ! i \<noteq> ErrBody e1" by blast
    from err_fields_step [OF st this] False e0 show ?thesis by (simp add: inv_err_def)
  qed
qed

lemma reach_inv_step: "reach_inv p ctx1 ctx2 s \<Longrightarrow> step p e s = Some s' \<Longrightarrow> reach_inv p ctx1 ctx2 s'"
  unfolding reach_inv_def
  using combined_inv_step inv_err_step inv_calls_step same_inputs_step by blast

lemma reach_inv_start:
  "chan_ok h (ctx_Done ctx1) \<Longrightarrow> chan_ok h (ctx_Done ctx2) \<Longrightarrow> reach_inv p ctx1 ctx2 (start p ctx1 ctx2 h)"
  unfolding reach_inv_def using combined_inv_start [of h ctx1 ctx2 p]
  by (cases p)
     (simp_all add: inv_err_def inv_calls_def same_inputs_def start_def New_def NewOrContext_def
        NewAndContext_def)

lemma reach_inv_run:
  "reach_inv p ctx1 ctx2 s \<Longrightarrow> run p es s = Some s' \<Longrightarrow> reach_inv p ctx1 ctx2 s'"
  by (rule run_invariant [where P = "reach_inv p ctx1 ctx2" and p = p, OF reach_inv_step])

lemma reach_inv_from_start:
  assumes "chan_ok h (ctx_Done ctx1)" "chan_ok h (ctx_Done ctx2)"
    and "run p es (start p ctx1 ctx2 h) = Some s"
  shows "reach_inv p ctx1 ctx2 s"
  using reach_inv_run [OF reach_inv_start [OF assms(1,2)] assms(3)] .

lemma fired_needs_once: "combined_inv p s \<Longrightarrow> derived_fired s \<Longrightarrow> onceDone (fst s)"
  by (cases s; cases "done_chan (fst s)")
     (auto simp: combined_inv_iff derived_fired_def fired_def)

text \<open>A call of \<open>Err\<close> during which nothing else happens.\<close>

lemma Err_alone_not_fired:
  assumes "\<not> derived_fired s"
  shows "Err_alone p s = Some None"
proof -
  obtain c rt where s: "s = (c, rt)" by (cases s)
  let ?s0 = "(c, rt\<lparr>err_calls := err_calls rt @ [ErrEntry]\<rparr>)"
  obtain d c1 rt1 where D: "Done p ?s0 = (d, (c1, rt1))" by (metis prod.exhaust)
  have "\<not> derived_fired ?s0" using assms by (simp add: s derived_fired_def)
  from Done_fires_nothing [OF this, of p] D have nf: "\<not> fired (chans rt1) d" by simp
  from Done_err_calls [of p ?s0] D have cs: "err_calls rt1 = err_calls rt @ [ErrEntry]" by simp
  show ?thesis
    by (simp add: Err_alone_def after_Err_alone_def s eval_nat_numeral Err_simps D cs nf)
qed

lemma Err_alone_fired:
  assumes "combined_inv p s" "derived_fired s"
  shows "Err_alone p s =
     (if onceErr (fst s) then Some (err (fst s))
      else if list_ex is_ErrBody (err_calls (snd s)) then None
      else Some (errors_Join [ctx_Err (Ctx1 (fst s)), ctx_Err (Ctx2 (fst s))]))"
proof -
  obtain c rt where s: "s = (c, rt)" by (cases s)
  let ?s0 = "(c, rt\<lparr>err_calls := err_calls rt @ [ErrEntry]\<rparr>)"
  from fired_needs_once [OF assms] have "onceDone (fst ?s0)" by (simp add: s)
  from Done_memo [OF this, of p] have D: "Done p ?s0 = (done_chan c, ?s0)" by simp
  from assms(2) have f: "fired (chans rt) (done_chan c)" by (simp add: s derived_fired_def)
  show ?thesis
    by (simp add: Err_alone_def after_Err_alone_def s eval_nat_numeral Err_simps D f)
qed

lemma errors_Join2:
  "errors_Join [Some a, Some b] = Some (joinError [a, b])"
  "errors_Join [Some a, None] = Some (joinError [a])"
  "errors_Join [None, Some b] = Some (joinError [b])"
  "errors_Join [None, None] = None"
  by (simp_all add: errors_Join_def List.map_filter_simps)

lemma both_absent_state:
  assumes "ctx_Done ctx1 = None" "ctx_Done ctx2 = None"
    and "run p es (start p ctx1 ctx2 h) = Some s"
  shows "reach_inv p ctx1 ctx2 s \<and> done_chan (fst s) = None \<and> \<not> derived_fired s"
proof -
  have r: "reach_inv p ctx1 ctx2 s"
    by (rule reach_inv_from_start [OF _ _ assms(3)]) (simp_all add: assms(1,2) chan_ok_def)
  with assms(1,2) have "done_chan (fst s) = None"
    by (cases s; cases "done_chan (fst s)") (auto simp: reach_inv_def same_inputs_def combined_inv_iff)
  with r show ?thesis by (simp add: derived_fired_def fired_def)
qed

lemma Deadline_memo: "onceDeadline (fst s) \<Longrightarrow> Deadline p s = ((deadline (fst s), okDeadline (fst s)), s)"
  by (cases s; cases p)
     (simp_all add: Deadline_def OrContext_Deadline_def AndContext_Deadline_def)

lemma Deadline_stores:
  "onceDeadline (fst (snd (Deadline p s))) \<and>
   (deadline (fst (snd (Deadline p s))), okDeadline (fst (snd (Deadline p s)))) = fst (Deadline p s)"
  by (cases s; cases p)
     (simp_all add: Deadline_def OrContext_Deadline_def AndContext_Deadline_def Let_def split_beta)

lemma Deadline_fresh:
  "\<not> onceDeadline (fst s) \<Longrightarrow> same_inputs ctx1 ctx2 s \<Longrightarrow>
   fst (Deadline p s) = fst (Deadline p (start p ctx1 ctx2 h))"
  by (cases s; cases p)
     (simp_all add: Deadline_def OrContext_Deadline_def AndContext_Deadline_def Let_def split_beta
        same_inputs_def start_def New_def NewOrContext_def NewAndContext_def)

lemma once_deadline_step:
  assumes "step p e s = Some s'" "e \<noteq> CallDeadline"
  shows "onceDeadline (fst s') = onceDeadline (fst s)"
proof (cases e)
  case CallDone
  with assms Done_err_frame [of p s] show ?thesis by (cases s) auto
next
  case (ErrStep k)
  with assms have "step p (ErrStep k) s = Some s'" by simp
  then show ?thesis
  proof (cases rule: ErrStep_cases)
    case entry
    with Done_err_frame [of p s] show ?thesis by simp
  next
    case (body e1)
    then show ?thesis by simp
  next
    case (pure k')
    then show ?thesis by simp
  qed
qed (use assms in \<open>cases s; auto split: if_splits option.splits\<close>)+

lemma inv_deadline_step:
  assumes i: "inv_deadline p ctx1 ctx2 s" and st: "step p e s = Some s'"
  shows "inv_deadline p ctx1 ctx2 s'"
proof -
  from i have si: "same_inputs ctx1 ctx2 s" by (simp add: inv_deadline_def)
  from same_inputs_step [OF si st] have si': "same_inputs ctx1 ctx2 s'" .
  show ?thesis
  proof (cases "onceDeadline (fst s)")
    case True
    with memo_step [OF st] i si' show ?thesis by (simp add: inv_deadline_def)
  next
    case False
    show ?thesis
    proof (cases "e = CallDeadline")
      case True
      with st have "s' = snd (Deadline p s)" by (cases s) simp
      with Deadline_stores [of p s] Deadline_fresh [OF False si, of p "[]"] si'
      show ?thesis by (simp add: inv_deadline_def)
    next
      case ne: False
      from once_deadline_step [OF st ne] False si' show ?thesis by (simp add: inv_deadline_def)
    qed
  qed
qed

lemma inv_deadline_run:
  assumes "run p es (start p ctx1 ctx2 h) = Some s"
  shows "inv_deadline p ctx1 ctx2 s"
proof (rule run_invariant [where P = "inv_deadline p ctx1 ctx2" and p = p])
  show "inv_deadline p ctx1 ctx2 (start p ctx1 ctx2 h)"
    by (cases p)
       (simp_all add: inv_deadline_def same_inputs_def start_def New_def NewOrContext_def
          NewAndContext_def)
  show "run p es (start p ctx1 ctx2 h) = Some s" by fact
qed (rule inv_deadline_step)

lemma Deadline_reachable:
  assumes "run p es (start p ctx1 ctx2 h) = Some s"
  shows "fst (Deadline p s) = fst (Deadline p (start p ctx1 ctx2 []))"
proof (cases "onceDeadline (fst s)")
  case True
  with inv_deadline_run [OF assms] show ?thesis by (simp add: Deadline_memo inv_deadline_def)
next
  case False
  with inv_deadline_run [OF assms] show ?thesis by (simp add: Deadline_fresh inv_deadline_def)
qed

lemma distinct_count_le_1: "distinct xs \<Longrightarrow> count_list xs x \<le> 1"
  by (induction xs) (auto simp: count_list_0_iff)

lemma Deadline_computed:
  "computed (snd (snd (Deadline p s))) =
     (if onceDeadline (fst s) then computed (snd s) else computed (snd s) @ [QDeadline])"
  by (cases s; cases p)
     (simp_all add: Deadline_def OrContext_Deadline_def AndContext_Deadline_def Let_def split_beta)

lemma Done_computed:
  "computed (snd (snd (Done p s))) =
     (if onceDone (fst s) then computed (snd s) else computed (snd s) @ [QDone])"
  by (cases s) (simp add: Done_eq)

lemma inv_computed_Deadline: "inv_computed s \<Longrightarrow> inv_computed (snd (Deadline p s))"
proof -
  assume a: "inv_computed s"
  obtain c rt where s: "s = (c, rt)" by (cases s)
  obtain r c' rt' where d: "Deadline p (c, rt) = (r, (c', rt'))" by (metis prod.exhaust)
  from Deadline_frame [OF d] Deadline_computed [of p s] Deadline_stores [of p s] a
  show ?thesis by (auto simp: s d inv_computed_def)
qed

lemma inv_computed_Done: "inv_computed s \<Longrightarrow> inv_computed (snd (Done p s))"
  using Done_computed [of p s] Done_err_frame [of p s] Done_sets_once [of p s]
  by (auto simp: inv_computed_def)

lemma inv_computed_step:
  assumes ic: "inv_calls s" and c: "inv_computed s" and st: "step p e s = Some s'"
  shows "inv_computed s'"
proof (cases e)
  case CallDeadline
  with c st inv_computed_Deadline [of s p] show ?thesis by (cases s) auto
next
  case CallDone
  with c st inv_computed_Done [of s p] show ?thesis by (cases s) auto
next
  case (ErrStep n)
  with st have "step p (ErrStep n) s = Some s'" by simp
  then show ?thesis
  proof (cases rule: ErrStep_cases)
    case entry
    with inv_computed_Done [OF c, of p] show ?thesis by (simp add: inv_computed_def)
  next
    case (body e1)
    from ic body(1,2) have "\<not> onceErr (fst s)" unfolding inv_calls_iff by (metis call_ok_simps(4))
    with c body(3) show ?thesis by (auto simp: inv_computed_def)
  next
    case (pure k')
    with c show ?thesis by (simp add: inv_computed_def)
  qed
qed (use c st in \<open>cases s; auto simp: inv_computed_def split: if_splits option.splits\<close>)+

lemma inv_computed_run:
  assumes "chan_ok h (ctx_Done ctx1)" "chan_ok h (ctx_Done ctx2)"
    and "run p es (start p ctx1 ctx2 h) = Some s"
  shows "inv_computed s"
proof -
  let ?P = "\<lambda>t. reach_inv p ctx1 ctx2 t \<and> inv_computed t"
  have "?P s"
  proof (rule run_invariant [where P = ?P and p = p])
    show "?P (start p ctx1 ctx2 h)"
      using reach_inv_start [OF assms(1,2), of p] by (simp add: inv_computed_def start_def)
    show "run p es (start p ctx1 ctx2 h) = Some s" by fact
  next
    fix e t t' assume "?P t" "step p e t = Some t'"
    then show "?P t'" using reach_inv_step inv_computed_step by (metis reach_inv_def)
  qed
  then show ?thesis by simp
qed

lemma memo_err_run:
  assumes "reach_inv p ctx1 ctx2 s" "onceErr (fst s)" "run p es s = Some s'"
  shows "reach_inv p ctx1 ctx2 s' \<and> onceErr (fst s') \<and> err (fst s') = err (fst s)"
proof (rule run_invariant [where p = p and s = s and es = es and P = "\<lambda>t.
         reach_inv p ctx1 ctx2 t \<and> onceErr (fst t) \<and> err (fst t) = err (fst s)"])
  fix e t t'
  assume a: "reach_inv p ctx1 ctx2 t \<and> onceErr (fst t) \<and> err (fst t) = err (fst s)"
    and st: "step p e t = Some t'"
  from a have "inv_calls t" by (simp add: reach_inv_def)
  from memo_err_step [OF this _ st] reach_inv_step [OF _ st] a
  show "reach_inv p ctx1 ctx2 t' \<and> onceErr (fst t') \<and> err (fst t') = err (fst s)" by simp
qed (use assms in simp_all)

lemma memo_run:
  assumes "run p es s = Some s'"
  shows "(onceDeadline (fst s) \<longrightarrow> onceDeadline (fst s') \<and> deadline (fst s') = deadline (fst s) \<and>
            okDeadline (fst s') = okDeadline (fst s)) \<and>
         (onceDone (fst s) \<longrightarrow> onceDone (fst s') \<and> done_chan (fst s') = done_chan (fst s))"
proof (rule run_invariant [where p = p and s = s and es = es and P = "\<lambda>t.
         (onceDeadline (fst s) \<longrightarrow> onceDeadline (fst t) \<and> deadline (fst t) = deadline (fst s) \<and>
            okDeadline (fst t) = okDeadline (fst s)) \<and>
         (onceDone (fst s) \<longrightarrow> onceDone (fst t) \<and> done_chan (fst t) = done_chan (fst s))"])
  fix e t t'
  assume a: "(onceDeadline (fst s) \<longrightarrow> onceDeadline (fst t) \<and> deadline (fst t) = deadline (fst s) \<and>
            okDeadline (fst t) = okDeadline (fst s)) \<and>
         (onceDone (fst s) \<longrightarrow> onceDone (fst t) \<and> done_chan (fst t) = done_chan (fst s))"
    and st: "step p e t = Some t'"
  from memo_step [OF st] a
  show "(onceDeadline (fst s) \<longrightarrow> onceDeadline (fst t') \<and> deadline (fst t') = deadline (fst s) \<and>
            okDeadline (fst t') = okDeadline (fst s)) \<and>
         (onceDone (fst s) \<longrightarrow> onceDone (fst t') \<and> done_chan (fst t') = done_chan (fst s))"
    by auto
qed (use assms in simp_all)

text \<open>
  The earlier copies of the two \<open>Value\<close> methods return nil for every key, whatever
  the inputs hold.
\<close>

lemma Value_draft_nil:
  "OrContext_Value_draft c key = None" "AndContext_Value_draft c key = None"
  by (simp_all add: OrContext_Value_draft_def AndContext_Value_draft_def)

lemma valueCtx_nil:
  "ctx_Value parent key = None \<Longrightarrow> ctx_Value (valueCtx parent key None) = ctx_Value parent"
  by (auto simp: valueCtx_def)

lemma valueCtx_same: "ctx_Value (valueCtx parent key v) key = v"
  by (simp add: valueCtx_def)

text \<open>
  Once the condition on the inputs holds, the watcher can run to the end: it needs no
  other event.
\<close>

lemma close_progress:
  assumes "goroutines rt = [CloseDone ch]" "done_chan c = Some ch" "ch < length (chans rt)"
    "\<not> closed (chans rt) ch"
  shows "\<exists>s'. run p [Watcher 0 False] (c, rt) = Some s' \<and> derived_fired s'"
  using assms by (simp add: close_chan_def closed_def derived_fired_def fired_def)

lemma or_progress:
  assumes g: "goroutines rt = [OrDone done1 done2 ch]" and dc: "done_chan c = Some ch"
    and lt: "ch < length (chans rt)" and nc: "\<not> closed (chans rt) ch"
    and f: "fired (chans rt) done1 \<or> fired (chans rt) done2"
  shows "\<exists>s'. run p [Watcher 0 (\<not> fired (chans rt) done1), Watcher 0 False] (c, rt) = Some s' \<and>
              derived_fired s'"
proof -
  from nc lt have n: "\<not> chans rt ! ch" by (simp add: closed_def)
  show ?thesis
  proof (cases "fired (chans rt) done1")
    case True
    with g dc lt n show ?thesis
      by (simp add: recv_fired close_chan_def derived_fired_def fired_close)
  next
    case False
    with f g dc lt n show ?thesis
      by (simp add: recv_fired close_chan_def derived_fired_def fired_close)
  qed
qed

lemma and_progress:
  assumes g: "goroutines rt = [AndDone done1 done2 ch]" and dc: "done_chan c = Some ch"
    and lt: "ch < length (chans rt)" and nc: "\<not> closed (chans rt) ch"
    and f1: "done1 = None \<or> fired (chans rt) done1" and f2: "done2 = None \<or> fired (chans rt) done2"
  shows "\<exists>s'. run p ((if done1 = None then [] else [Watcher 0 False]) @
                     (if done2 = None then [] else [Watcher 0 True]) @
                     [Watcher 0 False, Watcher 0 False]) (c, rt) = Some s' \<and>
              derived_fired s'"
proof -
  from nc lt have n: "\<not> chans rt ! ch" by (simp add: closed_def)
  show ?thesis
  proof (cases done1)
    case n1: None
    show ?thesis
    proof (cases done2)
      case None
      with n1 g dc lt n show ?thesis
        by (simp add: close_chan_def derived_fired_def fired_close)
    next
      case (Some b)
      with f2 have "fired (chans rt) (Some b)" by simp
      with Some n1 g dc lt n show ?thesis
        by (simp add: recv_fired close_chan_def derived_fired_def fired_close)
    qed
  next
    case s1: (Some a)
    with f1 have fa: "fired (chans rt) (Some a)" by simp
    show ?thesis
    proof (cases done2)
      case None
      with fa s1 g dc lt n show ?thesis
        by (simp add: recv_fired close_chan_def derived_fired_def fired_close)
    next
      case (Some b)
      with f2 have "fired (chans rt) (Some b)" by simp
      with Some fa s1 g dc lt n show ?thesis
        by (simp add: recv_fired close_chan_def derived_fired_def fired_close)
    qed
  qed
qed

lemma watcher_progress:
  assumes i: "combined_inv p s" and dc: "done_chan (fst s) \<noteq> None" and ic: "input_condition p s"
  shows "\<exists>ws s'. list_all is_Watcher ws \<and> run p ws s = Some s' \<and> derived_fired s'"
proof -
  obtain c rt where s: "s = (c, rt)" by (cases s)
  from i dc obtain ch g where ch: "done_chan c = Some ch" and g: "goroutines rt = [g]"
    and w: "watcher_ok p (c, rt) ch g" and lt: "ch < length (chans rt)"
    unfolding s combined_inv_iff by auto
  show ?thesis
  proof (cases g)
    case (OrDone done1 done2 d)
    with w ic have d: "d = ch" and nc: "\<not> closed (chans rt) ch"
      and f: "fired (chans rt) done1 \<or> fired (chans rt) done2"
      by (auto simp: s watcher_ok_simps input_condition_simps)
    from or_progress [OF _ ch lt nc f, of p] g OrDone d
    obtain s' where "run p [Watcher 0 (\<not> fired (chans rt) done1), Watcher 0 False] (c, rt) = Some s'"
      "derived_fired s'" by auto
    moreover have "list_all is_Watcher [Watcher 0 (\<not> fired (chans rt) done1), Watcher 0 False]"
      by simp
    ultimately show ?thesis unfolding s by blast
  next
    case (AndDone done1 done2 d)
    with w ic have d: "d = ch" and nc: "\<not> closed (chans rt) ch"
      and f: "done1 = None \<or> fired (chans rt) done1" "done2 = None \<or> fired (chans rt) done2"
      by (auto simp: s watcher_ok_simps input_condition_simps)
    let ?ws = "(if done1 = None then [] else [Watcher 0 False]) @
               (if done2 = None then [] else [Watcher 0 True]) @ [Watcher 0 False, Watcher 0 False]"
    from and_progress [OF _ ch lt nc f, of p] g AndDone d
    obtain s' where "run p ?ws (c, rt) = Some s'" "derived_fired s'" by auto
    moreover have "list_all is_Watcher ?ws" by simp
    ultimately show ?thesis unfolding s by blast
  next
    case (CloseDone d)
    with w have "d = ch" "\<not> closed (chans rt) ch" by (simp_all add: watcher_ok_simps)
    with close_progress [OF _ ch lt, of p] g CloseDone
    obtain s' where "run p [Watcher 0 False] (c, rt) = Some s'" "derived_fired s'" by auto
    moreover have "list_all is_Watcher [Watcher 0 False]" by simp
    ultimately show ?thesis unfolding s by blast
  next
    case Returned
    with w ch have "derived_fired (c, rt)" by (simp add: watcher_ok_simps derived_fired_def fired_def)
    moreover have "run p [] (c, rt) = Some (c, rt)" "list_all is_Watcher []" by simp_all
    ultimately show ?thesis unfolding s by blast
  qed
qed

section \<open>The done signal\<close>

text \<open>
  C1. The derived done signal fires only strictly after the condition on the inputs has
  become true. In every state a combined context can reach from its creation, whatever
  its observers, the owners of its inputs and its watcher do and in whatever order: if
  its done channel is closed, then under OR at least one input's done channel is
  closed, and under AND every input that has a done channel has it closed (an input
  with a nil channel contributes nothing, so with exactly one nil side the one present
  side is closed). The event that closes the derived channel happens in a state in which
  that condition already holds. And once \<open>Done\<close> has made the channel and the condition
  holds, steps of the watcher alone lead to a state where the derived channel is closed.
\<close>

theorem derived_done_fires_only_after_inputs:
  assumes "chan_ok h (ctx_Done ctx1)" "chan_ok h (ctx_Done ctx2)"
    and "run p es (start p ctx1 ctx2 h) = Some s"
  shows "(derived_fired s \<longrightarrow> input_condition p s) \<and>
         (\<forall>e s'. step p e s = Some s' \<and> \<not> derived_fired s \<and> derived_fired s' \<longrightarrow>
            input_condition p s) \<and>
         (done_chan (fst s) \<noteq> None \<and> input_condition p s \<longrightarrow>
            (\<exists>ws s'. list_all is_Watcher ws \<and> run p ws s = Some s' \<and> derived_fired s'))"
proof -
  have i: "combined_inv p s" using assms by (rule combined_inv_run)
  have 1: "derived_fired s \<longrightarrow> input_condition p s"
    using i by (simp add: combined_inv_fired)
  have 2: "\<forall>e s'. step p e s = Some s' \<and> \<not> derived_fired s \<and> derived_fired s' \<longrightarrow>
            input_condition p s"
    using i firing_step by blast
  have 3: "done_chan (fst s) \<noteq> None \<and> input_condition p s \<longrightarrow>
            (\<exists>ws s'. list_all is_Watcher ws \<and> run p ws s = Some s' \<and> derived_fired s')"
    using i watcher_progress by blast
  from 1 2 3 show ?thesis by blast
qed

theorem derived_done_fires_only_after_inputs_witness:
  "chan_ok [False] (ctx_Done (cancelCtx 0)) \<and> chan_ok [False] (ctx_Done Background) \<and>
   (\<exists>s. run AndPolicy [CallDone, Cancel 0, Watcher 0 False, Watcher 0 False, Watcher 0 False]
          (start AndPolicy (cancelCtx 0) Background [False]) = Some s \<and>
       derived_fired s \<and> input_condition AndPolicy s)"
proof -
  have ok: "chan_ok [False] (ctx_Done (cancelCtx 0))" "chan_ok [False] (ctx_Done Background)"
    by (simp_all add: chan_ok_def cancelCtx_def Background_def)
  obtain s where r: "run AndPolicy [CallDone, Cancel 0, Watcher 0 False, Watcher 0 False, Watcher 0 False]
          (start AndPolicy (cancelCtx 0) Background [False]) = Some s" and d: "derived_fired s"
    by (simp add: start_def New_def NewAndContext_def Done_def AndContext_Done_def Let_def
          cancelCtx_def Background_def close_chan_def closed_def derived_fired_def fired_def)
  from derived_done_fires_only_after_inputs [OF ok r] d ok show ?thesis using r by blast
qed

text \<open>
  C2. When both inputs have a nil done channel, \<open>Done\<close> of the combined context
  returns nil, under both policies: in every state the combined context can reach, the
  call returns the nil channel, no channel is made and no watcher goroutine exists before
  or after the call.
\<close>

theorem Done_absent_when_both_absent:
  assumes "ctx_Done ctx1 = None" "ctx_Done ctx2 = None"
    and "run p es (start p ctx1 ctx2 h) = Some s"
  shows "fst (Done p s) = None \<and> goroutines (snd s) = [] \<and>
         goroutines (snd (snd (Done p s))) = [] \<and> chans (snd (snd (Done p s))) = chans (snd s)"
proof -
  obtain c rt where s: "s = (c, rt)" by (cases s)
  from same_inputs_run [OF assms(3)] assms(1,2)
  have n: "ctx_Done (Ctx1 c) = None" "ctx_Done (Ctx2 c) = None"
    by (simp_all add: same_inputs_def s)
  have "combined_inv p s"
    by (rule combined_inv_run [OF _ _ assms(3)]) (simp_all add: assms(1,2) chan_ok_def)
  with n have "done_chan c = None" "goroutines rt = []"
    by (auto simp: s combined_inv_iff)
  with n show ?thesis by (simp add: s Done_eq)
qed

theorem Done_absent_when_both_absent_witness:
  "ctx_Done Background = None \<and>
   (\<exists>s. run OrPolicy [CallDeadline, CallErr, ErrStep 0, ErrStep 0, CallDone]
           (start OrPolicy Background Background []) = Some s \<and>
     fst (Done OrPolicy s) = None \<and> goroutines (snd (snd (Done OrPolicy s))) = [])"
proof -
  have b: "ctx_Done Background = None" by (simp add: Background_def)
  obtain s where r: "run OrPolicy [CallDeadline, CallErr, ErrStep 0, ErrStep 0, CallDone]
           (start OrPolicy Background Background []) = Some s"
    by (simp add: start_def New_def NewOrContext_def Done_def OrContext_Done_def Let_def
         Deadline_def OrContext_Deadline_def Err_def Background_def)
  from Done_absent_when_both_absent [OF b b r] b r show ?thesis by blast
qed

section \<open>The termination error\<close>




section \<open>The deadline\<close>

text \<open>
  C4. \<open>Deadline\<close> of a combined context, in every state it can reach: when both inputs
  have a deadline, the earlier one under OR and the later one under AND; when exactly
  one input has a deadline, that deadline, under both policies; when neither has one, no
  deadline.
\<close>

theorem Deadline_earliest_or_latest:
  assumes "run p es (start p ctx1 ctx2 h) = Some s"
    and "ctx_Deadline ctx1 = (d1, ok1)" "ctx_Deadline ctx2 = (d2, ok2)"
  shows "(ok1 \<and> ok2 \<longrightarrow>
            fst (Deadline p s) = ((case p of OrPolicy \<Rightarrow> min d1 d2 | AndPolicy \<Rightarrow> max d1 d2), True)) \<and>
         (ok1 \<and> \<not> ok2 \<longrightarrow> fst (Deadline p s) = (d1, True)) \<and>
         (\<not> ok1 \<and> ok2 \<longrightarrow> fst (Deadline p s) = (d2, True)) \<and>
         (\<not> ok1 \<and> \<not> ok2 \<longrightarrow> snd (fst (Deadline p s)) = False)"
  unfolding Deadline_reachable [OF assms(1)] using assms(2,3)
  by (cases p)
     (auto simp: Deadline_def OrContext_Deadline_def AndContext_Deadline_def Let_def
        start_def New_def NewOrContext_def NewAndContext_def)

theorem Deadline_earliest_or_latest_witness:
  "\<exists>s. run OrPolicy [CallErr, ErrStep 0, ErrStep 0, CallDeadline, Cancel 0]
          (start OrPolicy (timerCtx 2000 0) (timerCtx 4000 1) [False, False]) = Some s \<and>
       ctx_Deadline (timerCtx 2000 0) = (2000, True) \<and>
       ctx_Deadline (timerCtx 4000 1) = (4000, True) \<and>
       fst (Deadline OrPolicy s) = (2000, True)"
proof -
  have d: "ctx_Deadline (timerCtx 2000 0) = (2000, True)"
    "ctx_Deadline (timerCtx 4000 1) = (4000, True)"
    by (simp_all add: timerCtx_def Background_def)
  obtain s where r: "run OrPolicy [CallErr, ErrStep 0, ErrStep 0, CallDeadline, Cancel 0]
          (start OrPolicy (timerCtx 2000 0) (timerCtx 4000 1) [False, False]) = Some s"
    by (simp add: start_def New_def NewOrContext_def Done_def OrContext_Done_def Let_def
         Err_def Deadline_def OrContext_Deadline_def timerCtx_def
         Background_def close_chan_def closed_def)
  from Deadline_earliest_or_latest [OF r d] d r show ?thesis by auto
qed

section \<open>Value lookups\<close>

text \<open>
  C5. \<open>OrContext.Value\<close>: nil when both inputs answer nil for the key; otherwise the
  pair of the two answers, whichever of them is nil. So the result is not nil as soon as
  one input has a value.
\<close>

theorem OrContext_Value_either:
  "(ctx_Value (Ctx1 c) key = None \<and> ctx_Value (Ctx2 c) key = None \<longrightarrow>
      OrContext_Value c key = None) \<and>
   (ctx_Value (Ctx1 c) key \<noteq> None \<or> ctx_Value (Ctx2 c) key \<noteq> None \<longrightarrow>
      OrContext_Value c key = Some (Tuple2 (ctx_Value (Ctx1 c) key) (ctx_Value (Ctx2 c) key)))"
  by (simp add: OrContext_Value_def Let_def)

theorem OrContext_Value_either_witness:
  "ctx_Value (Ctx1 (NewOrContext (valueCtx Background (Some (GString ''key'')) (Some (GInt 1234)))
      Background)) (Some (GString ''key'')) \<noteq> None \<and>
   OrContext_Value (NewOrContext (valueCtx Background (Some (GString ''key'')) (Some (GInt 1234)))
      Background) (Some (GString ''key'')) = Some (Tuple2 (Some (GInt 1234)) None)"
  using OrContext_Value_either
    [of "NewOrContext (valueCtx Background (Some (GString ''key'')) (Some (GInt 1234))) Background"
        "Some (GString ''key'')"]
  by (simp add: NewOrContext_def valueCtx_def Background_def)

text \<open>
  C6. \<open>AndContext.Value\<close>: the pair of the two values exactly when both inputs answer
  a value that is not nil; nil as soon as one of them answers nil.
\<close>

theorem AndContext_Value_both:
  "(ctx_Value (Ctx1 c) key = Some v1 \<and> ctx_Value (Ctx2 c) key = Some v2 \<longrightarrow>
      AndContext_Value c key = Some (TwoValues (Some v1) (Some v2))) \<and>
   (ctx_Value (Ctx1 c) key = None \<or> ctx_Value (Ctx2 c) key = None \<longrightarrow>
      AndContext_Value c key = None) \<and>
   (AndContext_Value c key \<noteq> None \<longleftrightarrow>
      ctx_Value (Ctx1 c) key \<noteq> None \<and> ctx_Value (Ctx2 c) key \<noteq> None)"
  by (auto simp: AndContext_Value_def Let_def)

theorem AndContext_Value_both_witness:
  "ctx_Value (Ctx1 (NewAndContext (valueCtx Background (Some (GString ''key'')) (Some (GInt 1234)))
      (valueCtx Background (Some (GString ''key'')) (Some (GString ''1234'')))))
      (Some (GString ''key'')) = Some (GInt 1234) \<and>
   AndContext_Value (NewAndContext (valueCtx Background (Some (GString ''key'')) (Some (GInt 1234)))
      (valueCtx Background (Some (GString ''key'')) (Some (GString ''1234''))))
      (Some (GString ''key'')) = Some (TwoValues (Some (GInt 1234)) (Some (GString ''1234''))) \<and>
   AndContext_Value (NewAndContext (valueCtx Background (Some (GString ''key'')) (Some (GInt 1234)))
      Background) (Some (GString ''key'')) = None"
  using AndContext_Value_both
    [of "NewAndContext (valueCtx Background (Some (GString ''key'')) (Some (GInt 1234)))
          (valueCtx Background (Some (GString ''key'')) (Some (GString ''1234'')))"
        "Some (GString ''key'')" "GInt 1234" "GString ''1234''"]
    AndContext_Value_both
    [of "NewAndContext (valueCtx Background (Some (GString ''key'')) (Some (GInt 1234))) Background"
        "Some (GString ''key'')"]
  by (simp add: NewAndContext_def valueCtx_def Background_def)

section \<open>Memoization\<close>

text \<open>
  C7. Each derived quantity is computed at most once per combined context, however
  often and in whatever order its methods are called by however many observers, the
  calls of \<open>Err\<close> being interleaved step by step with everything else. In every state
  the combined context can reach: each of the three bodies given to \<open>Once.Do\<close> has run
  at most once; at most one watcher goroutine has been started; every later call of
  \<open>Deadline\<close> returns what the call in this state returns, every later call of \<open>Done\<close>
  returns the channel the call in this state returns, and once the error has been
  computed every call of \<open>Err\<close> that returns it returns the stored error, as does every
  later call during which nothing else happens.
\<close>

theorem computed_at_most_once:
  assumes "chan_ok h (ctx_Done ctx1)" "chan_ok h (ctx_Done ctx2)"
    and "run p es (start p ctx1 ctx2 h) = Some s"
  shows "count_list (computed (snd s)) q \<le> 1 \<and> length (goroutines (snd s)) \<le> 1 \<and>
         (\<forall>es' s'. run p es' (snd (Deadline p s)) = Some s' \<longrightarrow>
            fst (Deadline p s') = fst (Deadline p s)) \<and>
         (\<forall>es' s'. run p es' (snd (Done p s)) = Some s' \<longrightarrow> fst (Done p s') = fst (Done p s)) \<and>
         (\<forall>es' s'. onceErr (fst s) \<and> run p es' s = Some s' \<longrightarrow>
            Err_alone p s' = Some (err (fst s)) \<and>
            (\<forall>i r. i < length (err_calls (snd s')) \<and> err_calls (snd s') ! i = ErrReturned r \<longrightarrow>
               r = err (fst s)))"
proof -
  have r: "reach_inv p ctx1 ctx2 s" using assms by (rule reach_inv_from_start)
  have 1: "count_list (computed (snd s)) q \<le> 1"
    using inv_computed_run [OF assms] distinct_count_le_1 [of "computed (snd s)" q]
    by (simp add: inv_computed_def)
  have 2: "length (goroutines (snd s)) \<le> 1"
    using r by (cases s; cases "done_chan (fst s)") (auto simp: reach_inv_def combined_inv_iff)
  have 3: "fst (Deadline p s') = fst (Deadline p s)"
    if "run p es' (snd (Deadline p s)) = Some s'" for es' s'
    using memo_run [OF that] Deadline_stores [of p s] by (simp add: Deadline_memo)
  have 4: "fst (Done p s') = fst (Done p s)"
    if "run p es' (snd (Done p s)) = Some s'" for es' s'
    using memo_run [OF that] Done_sets_once [of p s] Done_result [of p s] by (simp add: Done_memo)
  have 5: "Err_alone p s' = Some (err (fst s)) \<and>
            (\<forall>i r. i < length (err_calls (snd s')) \<and> err_calls (snd s') ! i = ErrReturned r \<longrightarrow>
               r = err (fst s))"
    if o: "onceErr (fst s)" and run: "run p es' s = Some s'" for es' s'
  proof -
    from memo_err_run [OF r o run]
    have r': "reach_inv p ctx1 ctx2 s'" and o': "onceErr (fst s')"
      and e': "err (fst s') = err (fst s)" by simp_all
    from r' o' have i': "combined_inv p s'" and f': "derived_fired s'" and ic': "inv_calls s'"
      by (simp_all add: reach_inv_def inv_err_def)
    from Err_alone_fired [OF i' f'] o' e' have "Err_alone p s' = Some (err (fst s))" by simp
    moreover have "r = err (fst s)"
      if "i < length (err_calls (snd s'))" "err_calls (snd s') ! i = ErrReturned r" for i r
      using ic' that e' unfolding inv_calls_iff by (metis call_ok_simps(7))
    ultimately show ?thesis by blast
  qed
  from 1 2 3 4 5 show ?thesis by blast
qed

theorem computed_at_most_once_witness:
  "\<exists>s. run OrPolicy [CallDone, CallErr, ErrStep 0, CallDeadline, CallDone, Cancel 0,
                     SetErr1 (Some Canceled), Watcher 0 False, ErrStep 0, CallErr,
                     Watcher 0 False, ErrStep 1, ErrStep 1, ErrStep 1, ErrStep 1, ErrStep 1,
                     CallDone, CallDeadline]
          (start OrPolicy (cancelCtx 0) Background [False]) = Some s \<and>
       computed (snd s) = [QDone, QDeadline, QErr] \<and> goroutines (snd s) = [Returned] \<and>
       err_calls (snd s) = [ErrDefault, ErrReturned (Some (joinError [Canceled]))] \<and>
       count_list (computed (snd s)) QErr \<le> 1 \<and> length (goroutines (snd s)) \<le> 1 \<and>
       fst (Done OrPolicy (snd (Done OrPolicy s))) = fst (Done OrPolicy s)"
proof -
  have ok: "chan_ok [False] (ctx_Done (cancelCtx 0))" "chan_ok [False] (ctx_Done Background)"
    by (simp_all add: chan_ok_def cancelCtx_def Background_def)
  obtain s where r: "run OrPolicy [CallDone, CallErr, ErrStep 0, CallDeadline, CallDone, Cancel 0,
                     SetErr1 (Some Canceled), Watcher 0 False, ErrStep 0, CallErr,
                     Watcher 0 False, ErrStep 1, ErrStep 1, ErrStep 1, ErrStep 1, ErrStep 1,
                     CallDone, CallDeadline]
          (start OrPolicy (cancelCtx 0) Background [False]) = Some s"
    and c: "computed (snd s) = [QDone, QDeadline, QErr]" and g: "goroutines (snd s) = [Returned]"
    and e: "err_calls (snd s) = [ErrDefault, ErrReturned (Some (joinError [Canceled]))]"
    by (simp add: start_def New_def NewOrContext_def Done_def OrContext_Done_def Let_def
         Err_def Deadline_def OrContext_Deadline_def cancelCtx_def
         Background_def close_chan_def closed_def errors_Join2)
  note t = computed_at_most_once [OF ok r, of QErr]
  have "run OrPolicy [] (snd (Done OrPolicy s)) = Some (snd (Done OrPolicy s))" by simp
  with t have "fst (Done OrPolicy (snd (Done OrPolicy s))) = fst (Done OrPolicy s)" by blast
  with t r c g e show ?thesis by blast
qed

section \<open>The typed accessor\<close>

text \<open>
  C8. \<open>Value[T](ctx, key)\<close>: the stored value and true when the context answers, for the
  key, a value of type \<open>T\<close>; the zero value of \<open>T\<close> and false when it answers nil (the
  key is absent) or a value of another type. The function returns this pair and does
  nothing else.
\<close>

theorem Value_typed:
  "(ctx_Value ctx key = Some v \<and> has_type (Some v) T \<longrightarrow> Value T ctx key = (Some v, True)) \<and>
   (ctx_Value ctx key = None \<longrightarrow> Value T ctx key = (zero_value T, False)) \<and>
   (ctx_Value ctx key = Some v \<and> \<not> has_type (Some v) T \<longrightarrow> Value T ctx key = (zero_value T, False)) \<and>
   (snd (Value T ctx key) \<longleftrightarrow> has_type (ctx_Value ctx key) T) \<and>
   (has_type (Some v) T \<longleftrightarrow> T = Tany \<or> dynamic_type v = T)"
  by (auto simp: Value_def type_assert_def has_type_def)

theorem Value_typed_witness:
  "ctx_Value (valueCtx Background (Some (GString ''key1'')) (Some (GString ''key1'')))
     (Some (GString ''key1'')) = Some (GString ''key1'') \<and>
   has_type (Some (GString ''key1'')) Tstring \<and>
   Value Tstring (valueCtx Background (Some (GString ''key1'')) (Some (GString ''key1'')))
     (Some (GString ''key1'')) = (Some (GString ''key1''), True) \<and>
   Value Tstring (valueCtx Background (Some (GString ''key1'')) (Some (GString ''key1'')))
     (Some (GString ''key2'')) = (Some (GString []), False) \<and>
   Value Tstring (valueCtx Background (Some (GString ''key1'')) (Some (GInt 1)))
     (Some (GString ''key1'')) = (Some (GString []), False)"
  using Value_typed
    [of "valueCtx Background (Some (GString ''key1'')) (Some (GString ''key1''))"
        "Some (GString ''key1'')" "GString ''key1''" Tstring]
    Value_typed
    [of "valueCtx Background (Some (GString ''key1'')) (Some (GString ''key1''))"
        "Some (GString ''key2'')" "GString ''key1''" Tstring]
    Value_typed
    [of "valueCtx Background (Some (GString ''key1'')) (Some (GInt 1))"
        "Some (GString ''key1'')" "GInt 1" Tstring]
  by (simp add: valueCtx_def Background_def has_type_def)

section \<open>A stored nil\<close>

text \<open>
  C9. In both combined lookups an input that stores nil for the key cannot be told from
  an input that has no value for it: storing nil with \<open>context.WithValue\<close> on top of an
  input that answers nil for the key changes no combined lookup, and an input that stores
  nil counts as not resolving the key (nil under AND whatever the other input holds,
  nil under OR when the other input has nothing either).
\<close>

theorem stored_nil_is_absent:
  "(ctx_Value parent key = None \<longrightarrow>
      OrContext_Value (c\<lparr>Ctx1 := valueCtx parent key None\<rparr>) k = OrContext_Value (c\<lparr>Ctx1 := parent\<rparr>) k \<and>
      OrContext_Value (c\<lparr>Ctx2 := valueCtx parent key None\<rparr>) k = OrContext_Value (c\<lparr>Ctx2 := parent\<rparr>) k \<and>
      AndContext_Value (c\<lparr>Ctx1 := valueCtx parent key None\<rparr>) k = AndContext_Value (c\<lparr>Ctx1 := parent\<rparr>) k \<and>
      AndContext_Value (c\<lparr>Ctx2 := valueCtx parent key None\<rparr>) k = AndContext_Value (c\<lparr>Ctx2 := parent\<rparr>) k) \<and>
   AndContext_Value (c\<lparr>Ctx1 := valueCtx parent key None\<rparr>) key = None \<and>
   AndContext_Value (c\<lparr>Ctx2 := valueCtx parent key None\<rparr>) key = None \<and>
   (ctx_Value (Ctx2 c) key = None \<longrightarrow>
      OrContext_Value (c\<lparr>Ctx1 := valueCtx parent key None\<rparr>) key = None) \<and>
   (ctx_Value (Ctx1 c) key = None \<longrightarrow>
      OrContext_Value (c\<lparr>Ctx2 := valueCtx parent key None\<rparr>) key = None)"
proof -
  have 1: "OrContext_Value (c\<lparr>Ctx1 := valueCtx parent key None\<rparr>) k = OrContext_Value (c\<lparr>Ctx1 := parent\<rparr>) k \<and>
      OrContext_Value (c\<lparr>Ctx2 := valueCtx parent key None\<rparr>) k = OrContext_Value (c\<lparr>Ctx2 := parent\<rparr>) k \<and>
      AndContext_Value (c\<lparr>Ctx1 := valueCtx parent key None\<rparr>) k = AndContext_Value (c\<lparr>Ctx1 := parent\<rparr>) k \<and>
      AndContext_Value (c\<lparr>Ctx2 := valueCtx parent key None\<rparr>) k = AndContext_Value (c\<lparr>Ctx2 := parent\<rparr>) k"
    if "ctx_Value parent key = None"
    using valueCtx_nil [OF that] by (simp add: OrContext_Value_def AndContext_Value_def)
  have 2: "AndContext_Value (c\<lparr>Ctx1 := valueCtx parent key None\<rparr>) key = None"
    "AndContext_Value (c\<lparr>Ctx2 := valueCtx parent key None\<rparr>) key = None"
    by (simp_all add: AndContext_Value_def valueCtx_same)
  have 3: "OrContext_Value (c\<lparr>Ctx1 := valueCtx parent key None\<rparr>) key = None"
    if "ctx_Value (Ctx2 c) key = None"
    using that by (simp add: OrContext_Value_def valueCtx_same)
  have 4: "OrContext_Value (c\<lparr>Ctx2 := valueCtx parent key None\<rparr>) key = None"
    if "ctx_Value (Ctx1 c) key = None"
    using that by (simp add: OrContext_Value_def valueCtx_same)
  from 1 2 3 4 show ?thesis by blast
qed

theorem stored_nil_is_absent_witness:
  "ctx_Value Background (Some (GString ''key'')) = None \<and>
   AndContext_Value
     ((NewAndContext Background (valueCtx Background (Some (GString ''key'')) (Some (GInt 1234))))
        \<lparr>Ctx1 := valueCtx Background (Some (GString ''key'')) None\<rparr>) (Some (GString ''key'')) =
   AndContext_Value
     ((NewAndContext Background (valueCtx Background (Some (GString ''key'')) (Some (GInt 1234))))
        \<lparr>Ctx1 := Background\<rparr>) (Some (GString ''key'')) \<and>
   OrContext_Value
     ((NewOrContext Background Background)
        \<lparr>Ctx1 := valueCtx Background (Some (GString ''key'')) None\<rparr>) (Some (GString ''key'')) = None"
proof -
  have h: "ctx_Value Background (Some (GString ''key'')) = None"
    by (simp add: Background_def)
  have h2: "ctx_Value (Ctx2 (NewOrContext Background Background)) (Some (GString ''key'')) = None"
    by (simp add: Background_def NewOrContext_def)
  from h stored_nil_is_absent
    [of Background "Some (GString ''key'')"
        "NewAndContext Background (valueCtx Background (Some (GString ''key'')) (Some (GInt 1234)))"
        "Some (GString ''key'')"]
  have a: "AndContext_Value
     ((NewAndContext Background (valueCtx Background (Some (GString ''key'')) (Some (GInt 1234))))
        \<lparr>Ctx1 := valueCtx Background (Some (GString ''key'')) None\<rparr>) (Some (GString ''key'')) =
   AndContext_Value
     ((NewAndContext Background (valueCtx Background (Some (GString ''key'')) (Some (GInt 1234))))
        \<lparr>Ctx1 := Background\<rparr>) (Some (GString ''key''))"
    by blast
  from h2 stored_nil_is_absent
    [of Background "Some (GString ''key'')" "NewOrContext Background Background"
        "Some (GString ''key'')"]
  have b: "OrContext_Value
     ((NewOrContext Background Background)
        \<lparr>Ctx1 := valueCtx Background (Some (GString ''key'')) None\<rparr>) (Some (GString ''key'')) = None"
    by blast
  from h a b show ?thesis by blast
qed

section \<open>Inputs that can never end\<close>

text \<open>
  C10. When both inputs have a nil done channel, \<open>Err\<close> of the combined context returns
  nil on every call and never waits, under both policies. In every state it can reach:
  the derived done signal has not fired, the joining of the errors has never run and the
  error field is nil; every call of \<open>Err\<close> under way stands before \<open>c.Done()\<close>, or
  before its select holding the nil channel, or has returned nil from the default case,
  and one that has not returned can take its step; and a call during which nothing else
  happens returns nil.
\<close>

theorem Err_absent_when_both_absent:
  assumes "ctx_Done ctx1 = None" "ctx_Done ctx2 = None"
    and "run p es (start p ctx1 ctx2 h) = Some s"
  shows "Err_alone p s = Some None \<and> \<not> derived_fired s \<and> \<not> onceErr (fst s) \<and>
         err (fst s) = None \<and>
         (\<forall>i < length (err_calls (snd s)).
            (err_calls (snd s) ! i = ErrEntry \<or> err_calls (snd s) ! i = ErrSelect None \<or>
             err_calls (snd s) ! i = ErrDefault) \<and>
            (err_calls (snd s) ! i \<noteq> ErrDefault \<longrightarrow> step p (ErrStep i) s \<noteq> None))"
proof -
  from both_absent_state [OF assms]
  have r: "reach_inv p ctx1 ctx2 s" and dn: "done_chan (fst s) = None" and nf: "\<not> derived_fired s"
    by simp_all
  from r nf have e: "\<not> onceErr (fst s)" "err (fst s) = None" and ic: "inv_calls s"
    by (auto simp: reach_inv_def inv_err_def)
  have c: "(err_calls (snd s) ! i = ErrEntry \<or> err_calls (snd s) ! i = ErrSelect None \<or>
             err_calls (snd s) ! i = ErrDefault) \<and>
            (err_calls (snd s) ! i \<noteq> ErrDefault \<longrightarrow> step p (ErrStep i) s \<noteq> None)"
    if lt: "i < length (err_calls (snd s))" for i
  proof -
    from ic lt have "call_ok s (err_calls (snd s) ! i)" unfolding inv_calls_iff by blast
    with nf dn lt show ?thesis
      by (cases s; cases "err_calls (snd s) ! i")
         (simp_all add: call_ok_simps Err_simps split_beta)
  qed
  from Err_alone_not_fired [OF nf, of p] nf e c show ?thesis by blast
qed

theorem Err_absent_when_both_absent_witness:
  "ctx_Done Background = None \<and>
   (\<exists>s. run AndPolicy [CallErr, ErrStep 0, SetErr1 (Some Canceled), CallErr, ErrStep 0, CallDone,
                      ErrStep 1]
           (start AndPolicy Background Background []) = Some s \<and>
        err_calls (snd s) = [ErrDefault, ErrSelect None] \<and>
        Err_alone AndPolicy s = Some None)"
proof -
  have b: "ctx_Done Background = None" by (simp add: Background_def)
  obtain s where r: "run AndPolicy [CallErr, ErrStep 0, SetErr1 (Some Canceled), CallErr, ErrStep 0,
                      CallDone, ErrStep 1]
           (start AndPolicy Background Background []) = Some s"
    and c: "err_calls (snd s) = [ErrDefault, ErrSelect None]"
    by (simp add: start_def New_def NewAndContext_def Done_def AndContext_Done_def Let_def
         Err_def Background_def)
  from Err_absent_when_both_absent [OF b b r] b r c show ?thesis by blast
qed

end
